theory Spec2Isabelle
  imports Complex_Main "HOL-Library.Sublist"
begin

section \<open>Python string primitives used by the translator\<close>

text \<open>
  Python strings are modelled as \<open>string\<close> (lists of characters). The newline
  character is written \<open>nl\<close>.
\<close>

definition nl :: char where
  "nl = CHR 0x0A"

subsection \<open>Chunk segmentation: \<open>smart_split\<close> (src/src/translator.py)\<close>

text \<open>
  \<open>re.split(r'(\n\n+)', text)\<close>: the pattern matches a maximal run of at least two
  newlines; because the pattern is a capture group, the separators are kept in
  the result, which alternates text pieces and separators. The scan is from
  the left; \<open>acc\<close> holds the piece read since the last separator.
\<close>

function re_split_paragraphs :: "string \<Rightarrow> string \<Rightarrow> string list" where
  "re_split_paragraphs acc [] = [acc]"
| "re_split_paragraphs acc (c # cs) =
     (if c = nl \<and> cs \<noteq> [] \<and> hd cs = nl
      then acc # takeWhile (\<lambda>x. x = nl) (c # cs)
             # re_split_paragraphs [] (dropWhile (\<lambda>x. x = nl) (c # cs))
      else re_split_paragraphs (acc @ [c]) cs)"
  by pat_completeness auto
termination
proof (relation "measure (\<lambda>(acc, s). length s)")
  show "wf (measure (\<lambda>(acc, s). length s))" by simp
next
  fix acc :: string and c :: char and cs :: string
  assume "c = nl \<and> cs \<noteq> [] \<and> hd cs = nl"
  then have "length (dropWhile (\<lambda>x. x = nl) (c # cs)) \<le> length cs"
    by (simp add: length_dropWhile_le)
  then show "(([], dropWhile (\<lambda>x. x = nl) (c # cs)), (acc, c # cs))
               \<in> measure (\<lambda>(acc, s). length s)"
    by simp
next
  fix acc :: string and c :: char and cs :: string
  show "((acc @ [c], cs), (acc, c # cs)) \<in> measure (\<lambda>(acc, s). length s)"
    by simp
qed

text \<open>
  The body of the \<open>for para in paragraphs\<close> loop. The state is
  \<open>(chunks, current_chunk, current_length)\<close>; \<open>current_chunk\<close> is a list of
  paragraphs and is tested for emptiness as a list, as in the source.
\<close>

fun split_loop ::
  "int \<Rightarrow> string list \<Rightarrow> string list \<times> string list \<times> int
     \<Rightarrow> string list \<times> string list \<times> int" where
  "split_loop max_chars [] st = st"
| "split_loop max_chars (para # ps) (chunks, current_chunk, current_length) =
     (if current_length + int (length para) > max_chars \<and> current_chunk \<noteq> []
      then split_loop max_chars ps
             (chunks @ [concat current_chunk], [para], int (length para))
      else split_loop max_chars ps
             (chunks, current_chunk @ [para], current_length + int (length para)))"

definition smart_split :: "string \<Rightarrow> int \<Rightarrow> string list" where
  "smart_split text max_chars =
     (let paragraphs = re_split_paragraphs [] text;
          (chunks, current_chunk, current_length) =
             split_loop max_chars paragraphs ([], [], 0)
      in if current_chunk \<noteq> [] then chunks @ [concat current_chunk] else chunks)"

subsection \<open>Slices, replacement, upper-casing, number formatting\<close>

text \<open>
  Python slice indices: a negative index counts from the end, and every index
  is clamped to \<open>[0, len]\<close>.
\<close>

definition py_slice_index :: "nat \<Rightarrow> int \<Rightarrow> nat" where
  "py_slice_index n i = (if i < 0 then nat (max 0 (int n + i)) else min (nat i) n)"

definition py_slice :: "'a list \<Rightarrow> int \<Rightarrow> int \<Rightarrow> 'a list" where
  "py_slice xs start stop =
     (let a = py_slice_index (length xs) start;
          b = py_slice_index (length xs) stop
      in take (b - a) (drop a xs))"

text \<open>
  \<open>xs[start:stop] = ys\<close> on a list: the slice is replaced by \<open>ys\<close>; when the
  clamped stop lies before the clamped start, \<open>ys\<close> is inserted at the start.
\<close>

definition py_slice_assign :: "'a list \<Rightarrow> int \<Rightarrow> int \<Rightarrow> 'a list \<Rightarrow> 'a list" where
  "py_slice_assign xs start stop ys =
     (let a = py_slice_index (length xs) start;
          b = max a (py_slice_index (length xs) stop)
      in take a xs @ ys @ drop b xs)"

text \<open>\<open>sub in s\<close> on strings.\<close>

fun py_in :: "string \<Rightarrow> string \<Rightarrow> bool" where
  "py_in sub [] = (sub = [])"
| "py_in sub (c # cs) = (prefix sub (c # cs) \<or> py_in sub cs)"

text \<open>
  \<open>s.replace(old, new)\<close>: every non-overlapping occurrence of \<open>old\<close>, found from
  the left, is replaced. With an empty \<open>old\<close> Python inserts \<open>new\<close> before every
  character and at the end.
\<close>

function py_replace :: "string \<Rightarrow> string \<Rightarrow> string \<Rightarrow> string" where
  "py_replace [] old new = (if old = [] then new else [])"
| "py_replace (c # cs) old new =
     (if old = [] then new @ c # py_replace cs old new
      else if prefix old (c # cs)
           then new @ py_replace (drop (length old) (c # cs)) old new
           else c # py_replace cs old new)"
  by pat_completeness auto
termination
  by (relation "measure (\<lambda>(s, old, new). length s)") auto

text \<open>
  \<open>s.upper()\<close>. The source applies it only to macro and environment names that
  passed a membership test against ASCII names (with \<open>*\<close> allowed in between), so
  the ASCII letters are the only characters it ever changes here.
\<close>

definition upper_char :: "char \<Rightarrow> char" where
  "upper_char c =
     (case map_of (zip ''abcdefghijklmnopqrstuvwxyz'' ''ABCDEFGHIJKLMNOPQRSTUVWXYZ'') c of
        Some u \<Rightarrow> u
      | None \<Rightarrow> c)"

definition py_upper :: "string \<Rightarrow> string" where
  "py_upper s = map upper_char s"

definition py_endswith :: "string \<Rightarrow> string \<Rightarrow> bool" where
  "py_endswith s suf = suffix suf s"

text \<open>\<open>str(n)\<close> for a non-negative integer, and the format \<open>{n:04d}\<close>.\<close>

definition digit_char :: "nat \<Rightarrow> char" where
  "digit_char d = ''0123456789'' ! d"

fun py_str_nat :: "nat \<Rightarrow> string" where
  "py_str_nat n =
     (if n < 10 then [digit_char n] else py_str_nat (n div 10) @ [digit_char (n mod 10)])"

declare py_str_nat.simps [simp del]

definition py_format_04d :: "nat \<Rightarrow> string" where
  "py_format_04d n =
     (let d = py_str_nat n in replicate (4 - length d) (CHR ''0'') @ d)"

text \<open>
  A Python \<open>dict\<close> keeps its keys in insertion order; \<open>d[k] = v\<close> overwrites the
  value of an existing key in place and appends a new key at the end.
\<close>

type_synonym mask_table = "(string \<times> string) list"

fun dict_set :: "('k \<times> 'v) list \<Rightarrow> 'k \<Rightarrow> 'v \<Rightarrow> ('k \<times> 'v) list" where
  "dict_set [] k v = [(k, v)]"
| "dict_set ((k', v') # d) k v =
     (if k' = k then (k, v) # d else (k', v') # dict_set d k v)"

section \<open>The structural masker (src/src/parser.py)\<close>

subsection \<open>The node tree\<close>

text \<open>
  The parser is the third-party library pylatexenc: \<open>LatexWalker(text,
  ...).get_latex_nodes()\<close>. Its result is a parameter of the model. A node
  carries what \<open>mask_content\<close> reads: the class, \<open>pos\<close>, \<open>len\<close>, the macro or
  environment name, and \<open>nodelist\<close> for the classes that have this attribute
  (groups, math regions, environments). Arguments of macros and environments
  are kept by pylatexenc in \<open>nodeargd\<close>, which the source never reads.
\<close>

datatype latex_node =
    LatexCharsNode int int
  | LatexCommentNode int int
  | LatexSpecialsNode int int
  | LatexMacroNode string int int
  | LatexGroupNode int int "latex_node list"
  | LatexMathNode int int "latex_node list"
  | LatexEnvironmentNode string int int "latex_node list"

fun node_pos :: "latex_node \<Rightarrow> int" where
  "node_pos (LatexCharsNode p l) = p"
| "node_pos (LatexCommentNode p l) = p"
| "node_pos (LatexSpecialsNode p l) = p"
| "node_pos (LatexMacroNode name p l) = p"
| "node_pos (LatexGroupNode p l ns) = p"
| "node_pos (LatexMathNode p l ns) = p"
| "node_pos (LatexEnvironmentNode name p l ns) = p"

fun node_len :: "latex_node \<Rightarrow> int" where
  "node_len (LatexCharsNode p l) = l"
| "node_len (LatexCommentNode p l) = l"
| "node_len (LatexSpecialsNode p l) = l"
| "node_len (LatexMacroNode name p l) = l"
| "node_len (LatexGroupNode p l ns) = l"
| "node_len (LatexMathNode p l ns) = l"
| "node_len (LatexEnvironmentNode name p l ns) = l"

subsection \<open>Classification and traversal\<close>

definition MASKED_MACROS :: "string list" where
  "MASKED_MACROS =
     [''cite'', ''ref'', ''cref'', ''label'', ''input'', ''include'', ''includegraphics'']"

definition OPAQUE_ENVS :: "string set" where
  "OPAQUE_ENVS = {''equation'', ''align'', ''gather'', ''eqnarray'', ''tabular'',
                  ''tikzpicture'', ''axuodraw'', ''algorithmic''}"

definition CODE_ENVS :: "string set" where
  "CODE_ENVS = {''lstlisting'', ''verbatim'', ''minted''}"

text \<open>
  The condition under which an environment is masked as a whole: the nested
  tests of the branch "1. OPAQUE" of \<open>traverse_nodes\<close>, in the source's order.
\<close>

definition env_is_opaque :: "string \<Rightarrow> bool" where
  "env_is_opaque env_name =
     (if env_name \<in> OPAQUE_ENVS \<or> py_endswith env_name ''*''
      then if env_name \<notin> set [''figure*'', ''table*'']
              \<and> (env_name \<in> OPAQUE_ENVS \<or> py_endswith env_name ''*'')
           then if env_name \<in> OPAQUE_ENVS then True
                else if py_replace env_name ''*'' [] \<in> OPAQUE_ENVS then True
                else False
           else False
      else False)"

type_synonym mask_range = "int \<times> int \<times> string"

text \<open>
  \<open>traverse_nodes\<close> appends to the list \<open>mask_ranges\<close>; the model returns the
  ranges appended, in the order of the appends.
\<close>

fun traverse_nodes :: "latex_node list \<Rightarrow> mask_range list" where
  "traverse_nodes [] = []"
| "traverse_nodes (LatexMathNode pos len nodelist # rest) =
     (pos, pos + len, ''MATH'') # traverse_nodes rest"
| "traverse_nodes (LatexMacroNode macroname pos len # rest) =
     (if macroname \<in> set MASKED_MACROS
      then (pos, pos + len, ''CMD_'' @ py_upper macroname) # traverse_nodes rest
      else traverse_nodes rest)"
| "traverse_nodes (LatexEnvironmentNode env_name pos len nodelist # rest) =
     (if env_is_opaque env_name
      then (pos, pos + len, ''ENV_'' @ py_replace (py_upper env_name) ''*'' ''S'')
             # traverse_nodes rest
      else if env_name \<in> CODE_ENVS
      then (if nodelist \<noteq> []
            then (node_pos (hd nodelist),
                  node_pos (last nodelist) + node_len (last nodelist),
                  ''CODE_'' @ py_upper env_name) # traverse_nodes rest
            else traverse_nodes rest)
      else traverse_nodes nodelist @ traverse_nodes rest)"
| "traverse_nodes (LatexGroupNode pos len nodelist # rest) =
     traverse_nodes nodelist @ traverse_nodes rest"
| "traverse_nodes (LatexCharsNode pos len # rest) = traverse_nodes rest"
| "traverse_nodes (LatexCommentNode pos len # rest) = traverse_nodes rest"
| "traverse_nodes (LatexSpecialsNode pos len # rest) = traverse_nodes rest"

subsection \<open>Replacement\<close>

definition mask_token :: "string \<Rightarrow> nat \<Rightarrow> string" where
  "mask_token type_hint mask_counter =
     ''[MASK_'' @ type_hint @ ''_'' @ py_format_04d mask_counter @ '']''"

text \<open>
  The loop \<open>for start, end, type_hint in mask_ranges\<close>, on the state
  \<open>(working_text, masks, mask_counter)\<close>. The original segment is read from
  \<open>text\<close>, the replacement is made in \<open>working_text\<close>.
\<close>

fun replace_loop ::
  "string \<Rightarrow> mask_range list \<Rightarrow> string \<times> mask_table \<times> nat \<Rightarrow> string \<times> mask_table \<times> nat" where
  "replace_loop text [] st = st"
| "replace_loop text ((start, end, type_hint) # rs) (working_text, masks, mask_counter) =
     (if start < 0 \<or> end > int (length text)
      then replace_loop text rs (working_text, masks, mask_counter)
      else let original_segment = py_slice text start end;
               token = mask_token type_hint mask_counter
           in replace_loop text rs
                (py_slice_assign working_text start end token,
                 dict_set masks token original_segment,
                 mask_counter + 1))"

text \<open>\<open>mask_ranges.sort(key=lambda x: x[0], reverse=True)\<close>: a stable sort.\<close>

definition sort_ranges :: "mask_range list \<Rightarrow> mask_range list" where
  "sort_ranges rs = sort_key (\<lambda>r. - fst r) rs"

subsection \<open>The regular-expression fallback\<close>

definition dollar :: char where
  "dollar = CHR 0x24"

definition backslash :: char where
  "backslash = CHR 0x5C"

text \<open>
  The first \<open>$$\<close> in a string: the text before it and the text after it.
\<close>

fun find_display_close :: "string \<Rightarrow> (string \<times> string) option" where
  "find_display_close [] = None"
| "find_display_close (c # cs) =
     (if prefix [dollar, dollar] (c # cs) then Some ([], drop 2 (c # cs))
      else map_option (\<lambda>(body, rest). (c # body, rest)) (find_display_close cs))"

text \<open>
  \<open>re.sub(r'\$\$.*?\$\$', replacer, text, flags=re.DOTALL)\<close>: at each position,
  from the left, a match is \<open>$$\<close>, the shortest text that is followed by \<open>$$\<close>,
  and that \<open>$$\<close>. The state is \<open>(masks, mask_counter)\<close> of the enclosing function.
\<close>

function re_sub_display ::
  "string \<Rightarrow> mask_table \<times> nat \<Rightarrow> string \<times> mask_table \<times> nat" where
  "re_sub_display [] st = ([], st)"
| "re_sub_display (c # cs) (masks, mask_counter) =
     (case (if prefix [dollar, dollar] (c # cs)
            then find_display_close (drop 2 (c # cs)) else None) of
        Some (body, rest) \<Rightarrow>
          (let original = [dollar, dollar] @ body @ [dollar, dollar];
               token = mask_token ''R_MATH'' mask_counter;
               (out, st') = re_sub_display rest
                              (dict_set masks token original, mask_counter + 1)
           in (token @ out, st'))
      | None \<Rightarrow>
          (let (out, st') = re_sub_display cs (masks, mask_counter)
           in (c # out, st')))"
  by pat_completeness auto
termination
proof -
  have shorter: "find_display_close s = Some (b, r) \<Longrightarrow> length r \<le> length s"
    for s b r
    by (induction s arbitrary: b r) (auto split: if_splits)
  show ?thesis
    by (relation "measure (\<lambda>(s, st). length s)")
       (auto split: if_splits dest!: shorter)
qed

text \<open>
  The first \<open>$\<close> that is not preceded by a backslash; \<open>prev\<close> is the character
  before the string.
\<close>

fun find_inline_close :: "char \<Rightarrow> string \<Rightarrow> (string \<times> string) option" where
  "find_inline_close prev [] = None"
| "find_inline_close prev (c # cs) =
     (if c = dollar \<and> prev \<noteq> backslash then Some ([], cs)
      else map_option (\<lambda>(body, rest). (c # body, rest)) (find_inline_close c cs))"

text \<open>
  \<open>re.sub(r'(?<!\\)\$.*?(?<!\\)\$', replacer, text, flags=re.DOTALL)\<close>; \<open>prev\<close> is the
  character before the current position, \<open>None\<close> at the start of the text.
\<close>

function re_sub_inline ::
  "char option \<Rightarrow> string \<Rightarrow> mask_table \<times> nat \<Rightarrow> string \<times> mask_table \<times> nat" where
  "re_sub_inline prev [] st = ([], st)"
| "re_sub_inline prev (c # cs) (masks, mask_counter) =
     (case (if c = dollar \<and> prev \<noteq> Some backslash
            then find_inline_close c cs else None) of
        Some (body, rest) \<Rightarrow>
          (let original = c # body @ [dollar];
               token = mask_token ''R_MATH'' mask_counter;
               (out, st') = re_sub_inline (Some dollar) rest
                              (dict_set masks token original, mask_counter + 1)
           in (token @ out, st'))
      | None \<Rightarrow>
          (let (out, st') = re_sub_inline (Some c) cs (masks, mask_counter)
           in (c # out, st')))"
  by pat_completeness auto
termination
proof -
  have shorter: "find_inline_close p s = Some (b, r) \<Longrightarrow> length r < length s"
    for p s b r
    by (induction s arbitrary: p b r) (fastforce split: if_splits)+
  show ?thesis
    by (relation "measure (\<lambda>(prev, s, st). length s)")
       (auto split: if_splits dest!: shorter)
qed

definition mask_content_regex_fallback :: "string \<Rightarrow> string \<times> mask_table" where
  "mask_content_regex_fallback text =
     (let (text1, st1) = re_sub_display text ([], 0);
          (text2, masks, mask_counter) = re_sub_inline None text1 st1
      in (text2, masks))"

subsection \<open>\<open>mask_content\<close> and \<open>unmask_content\<close>\<close>

text \<open>
  \<open>parsed\<close> is what the parser did on \<open>text\<close>: \<open>Some nodes\<close> when
  \<open>get_latex_nodes\<close> returned the node list \<open>nodes\<close>, \<open>None\<close> when it raised, in
  which case the \<open>except\<close> branch runs the fallback. Nothing else in the \<open>try\<close>
  block can raise.
\<close>

definition mask_content :: "string \<Rightarrow> latex_node list option \<Rightarrow> string \<times> mask_table" where
  "mask_content text parsed =
     (case parsed of
        None \<Rightarrow> mask_content_regex_fallback text
      | Some nodes \<Rightarrow>
          (let mask_ranges = sort_ranges (traverse_nodes nodes);
               (working_text, masks, mask_counter) =
                  replace_loop text mask_ranges (text, [], 0)
           in (working_text, masks)))"

fun unmask_content :: "string \<Rightarrow> mask_table \<Rightarrow> string" where
  "unmask_content text [] = text"
| "unmask_content text ((token, original) # masks) =
     unmask_content (py_replace text token original) masks"

section \<open>The translation pipeline (src/src/translator.py)\<close>

subsection \<open>More string primitives\<close>

text \<open>
  \<open>s.strip()\<close> removes the white space of \<open>str.isspace\<close> at both ends; among the
  characters below 256 these are 9 to 13, 28 to 32, 133 and 160.
\<close>

definition py_isspace :: "char \<Rightarrow> bool" where
  "py_isspace c =
     (let n = (of_char c :: nat)
      in (9 \<le> n \<and> n \<le> 13) \<or> (28 \<le> n \<and> n \<le> 32) \<or> n = 133 \<or> n = 160)"

definition py_strip :: "string \<Rightarrow> string" where
  "py_strip s = rev (dropWhile py_isspace (rev (dropWhile py_isspace s)))"

text \<open>
  \<open>s.split(sep)\<close> for a non-empty separator (with an empty one Python raises;
  the source only splits at the two constant code fences). \<open>acc\<close> is the piece
  read since the last separator.
\<close>

function py_split_from :: "string \<Rightarrow> string \<Rightarrow> string \<Rightarrow> string list" where
  "py_split_from acc [] sep = [acc]"
| "py_split_from acc (c # cs) sep =
     (if sep \<noteq> [] \<and> prefix sep (c # cs)
      then acc # py_split_from [] (drop (length sep) (c # cs)) sep
      else py_split_from (acc @ [c]) cs sep)"
  by pat_completeness auto
termination
  by (relation "measure (\<lambda>(acc, s, sep). length s)") auto

definition py_split :: "string \<Rightarrow> string \<Rightarrow> string list" where
  "py_split s sep = py_split_from [] s sep"

subsection \<open>JSON values as \<open>json.loads\<close> returns them\<close>

datatype json =
    JNull
  | JBool bool
  | JNumber rat
  | JString string
  | JArray "json list"
  | JObject "(string \<times> json) list"

text \<open>
  Python's truth value of such a value: \<open>None\<close>, \<open>False\<close>, zero, the empty
  string, the empty list and the empty dict are false, everything else is true.
\<close>

fun py_truthy :: "json \<Rightarrow> bool" where
  "py_truthy JNull = False"
| "py_truthy (JBool b) = b"
| "py_truthy (JNumber x) = (x \<noteq> 0)"
| "py_truthy (JString s) = (s \<noteq> [])"
| "py_truthy (JArray xs) = (xs \<noteq> [])"
| "py_truthy (JObject kvs) = (kvs \<noteq> [])"

text \<open>\<open>d.get(key, default)\<close> on the items of a dict.\<close>

definition dict_get :: "(string \<times> json) list \<Rightarrow> string \<Rightarrow> json \<Rightarrow> json" where
  "dict_get d key dflt = (case map_of d key of None \<Rightarrow> dflt | Some v \<Rightarrow> v)"

subsection \<open>State and external services\<close>

text \<open>
  The keys of \<open>TranslationState\<close> that the pipeline reads or writes. The initial
  state built by \<open>translate_file_content\<close> has no key \<open>translated_chunk\<close>, hence
  the option.
\<close>

record TranslationState =
  chunk_index :: int
  original_chunk :: string
  translated_chunk :: "string option"
  terminology :: "(string \<times> string) list"
  failed_attempts :: int
  critic_errors :: json

definition initial_state :: "string \<Rightarrow> int \<Rightarrow> (string \<times> string) list \<Rightarrow> TranslationState" where
  "initial_state chunk i terms =
     \<lparr>chunk_index = i, original_chunk = chunk, translated_chunk = None,
      terminology = terms, failed_attempts = 0, critic_errors = JArray []\<rparr>"

text \<open>
  The language-model calls and \<open>json.loads\<close> are external. Each call is a function
  of its request that returns the \<open>content\<close> of the response, or \<open>None\<close> when the
  call raises. \<open>translate_llm\<close> gets the chunk and the terminology, \<open>critic_llm\<close>
  the original and the translated chunk, \<open>fixer_llm\<close> the original chunk, the
  translation, the error list and the terminology; \<open>json_loads\<close> returns \<open>None\<close>
  when the text is not JSON.
\<close>

record services =
  translate_llm :: "string \<Rightarrow> (string \<times> string) list \<Rightarrow> string option"
  critic_llm :: "string \<Rightarrow> string \<Rightarrow> string option"
  fixer_llm :: "string \<Rightarrow> string \<Rightarrow> json \<Rightarrow> (string \<times> string) list \<Rightarrow> string option"
  json_loads :: "string \<Rightarrow> json option"

datatype pipeline_error = KeyError | GraphRecursionError

subsection \<open>The nodes\<close>

definition translate_node :: "services \<Rightarrow> TranslationState \<Rightarrow> TranslationState" where
  "translate_node sv state =
     (let original = original_chunk state
      in case translate_llm sv original (terminology state) of
           Some content \<Rightarrow>
             state\<lparr>translated_chunk := Some (py_strip content), failed_attempts := 0\<rparr>
         | None \<Rightarrow>
             state\<lparr>translated_chunk := Some original, failed_attempts := 999,
                   critic_errors := JArray [JString ''LLM Call Failed'']\<rparr>)"

definition fence :: string where
  "fence = ''```''"

definition fence_json :: string where
  "fence_json = ''```json''"

text \<open>The text handed to \<open>json.loads\<close>: the response without its code fence.\<close>

definition critic_payload :: "string \<Rightarrow> string" where
  "critic_payload response =
     (let content = py_strip response
      in if py_in fence_json content
         then py_strip (hd (py_split (py_split content fence_json ! 1) fence))
         else if py_in fence content
         then py_strip (py_split content fence ! 1)
         else content)"

definition critic_parse_failed :: json where
  "critic_parse_failed = JArray [JString ''Critic parsing failed'']"

text \<open>
  The value that \<open>critic_node\<close> returns under the key \<open>critic_errors\<close>. Every
  exception inside the \<open>try\<close> block ends in the \<open>except\<close> branch: a call that
  raises, text that is not JSON, a JSON value without \<open>get\<close> (anything but an
  object), an \<open>errors\<close> value without \<open>append\<close>.
\<close>

definition critic_verdict :: "services \<Rightarrow> string \<Rightarrow> string \<Rightarrow> json" where
  "critic_verdict sv original translated =
     (case critic_llm sv original translated of
        None \<Rightarrow> critic_parse_failed
      | Some response \<Rightarrow>
          (case json_loads sv (critic_payload response) of
             None \<Rightarrow> critic_parse_failed
           | Some (JObject result) \<Rightarrow>
               (let is_safe = dict_get result ''safe'' (JBool False);
                    is_syntax = dict_get result ''syntax_valid'' (JBool False);
                    is_quality = dict_get result ''quality_pass'' (JBool False);
                    errors = dict_get result ''errors'' (JArray [])
                in if py_truthy is_safe \<and> py_truthy is_syntax \<and> py_truthy is_quality
                   then JArray []
                   else if \<not> py_truthy errors
                   then (case errors of
                           JArray xs \<Rightarrow> JArray (xs @ [JString ''Unknown failure''])
                         | _ \<Rightarrow> critic_parse_failed)
                   else errors)
           | Some _ \<Rightarrow> critic_parse_failed))"

definition critic_node :: "services \<Rightarrow> TranslationState \<Rightarrow> pipeline_error + TranslationState" where
  "critic_node sv state =
     (case translated_chunk state of
        None \<Rightarrow> Inl KeyError
      | Some translated \<Rightarrow>
          Inr (state\<lparr>critic_errors := critic_verdict sv (original_chunk state) translated\<rparr>))"

definition fixer_node :: "services \<Rightarrow> TranslationState \<Rightarrow> pipeline_error + TranslationState" where
  "fixer_node sv state =
     (let failures = failed_attempts state + 1
      in if failures > 3
         then Inr (state\<lparr>translated_chunk := Some (original_chunk state),
                         failed_attempts := failures,
                         critic_errors := JArray []\<rparr>)
         else (case translated_chunk state of
                 None \<Rightarrow> Inl KeyError
               | Some translated \<Rightarrow>
                   (case fixer_llm sv (original_chunk state) translated
                           (critic_errors state) (terminology state) of
                      Some content \<Rightarrow>
                        Inr (state\<lparr>translated_chunk := Some (py_strip content),
                                   failed_attempts := failures\<rparr>)
                    | None \<Rightarrow>
                        Inr (state\<lparr>translated_chunk := Some translated,
                                   failed_attempts := failures\<rparr>))))"

definition check_critic :: "TranslationState \<Rightarrow> string" where
  "check_critic state = (if \<not> py_truthy (critic_errors state) then ''pass'' else ''fail'')"

subsection \<open>The graph of \<open>build_graph\<close>\<close>

text \<open>
  Entry point \<open>translate\<close>; edge \<open>translate \<rightarrow> critic\<close>; conditional edges from
  \<open>critic\<close>, \<open>pass\<close> to \<open>END\<close> and \<open>fail\<close> to \<open>fixer\<close>; edge \<open>fixer \<rightarrow> critic\<close>.
\<close>

datatype graph_node = TranslateNode | CriticNode | FixerNode | END

fun graph_step ::
  "services \<Rightarrow> graph_node \<Rightarrow> TranslationState \<Rightarrow> pipeline_error + (graph_node \<times> TranslationState)" where
  "graph_step sv TranslateNode state = Inr (CriticNode, translate_node sv state)"
| "graph_step sv CriticNode state =
     (case critic_node sv state of
        Inl e \<Rightarrow> Inl e
      | Inr state' \<Rightarrow>
          Inr (if check_critic state' = ''pass'' then END else FixerNode, state'))"
| "graph_step sv FixerNode state =
     (case fixer_node sv state of
        Inl e \<Rightarrow> Inl e
      | Inr state' \<Rightarrow> Inr (CriticNode, state'))"
| "graph_step sv END state = Inr (END, state)"

text \<open>
  Running the compiled graph. The graph library counts the steps of a run against
  its recursion limit and raises \<open>GraphRecursionError\<close> when the limit is used up
  before the run has stopped at \<open>END\<close>: a run that executes \<open>n\<close> nodes returns only
  when the limit is at least \<open>n + 1\<close> (the default limit is 25). \<open>limit\<close> is what
  is left of the limit.
\<close>

fun run_graph ::
  "services \<Rightarrow> nat \<Rightarrow> graph_node \<Rightarrow> TranslationState \<Rightarrow> pipeline_error + TranslationState" where
  "run_graph sv 0 node state = Inl GraphRecursionError"
| "run_graph sv (Suc limit) END state = Inr state"
| "run_graph sv (Suc limit) node state =
     (case graph_step sv node state of
        Inl e \<Rightarrow> Inl e
      | Inr (node', state') \<Rightarrow> run_graph sv limit node' state')"

definition pipeline_invoke ::
  "services \<Rightarrow> nat \<Rightarrow> TranslationState \<Rightarrow> pipeline_error + TranslationState" where
  "pipeline_invoke sv limit state = run_graph sv limit TranslateNode state"

section \<open>Concrete services and states\<close>

definition rejecting_services :: services where
  "rejecting_services =
     \<lparr>translate_llm = (\<lambda>chunk terms. Some ''Bonjour''),
      critic_llm = (\<lambda>orig tr. Some ''no verdict''),
      fixer_llm = (\<lambda>orig tr errs terms. Some ''Salut''),
      json_loads = (\<lambda>s. None)\<rparr>"

definition pass_response :: string where
  \<open>pass_response = ''{"safe": true, "syntax_valid": true, "quality_pass": true, "errors": []}''\<close>

definition pass_json :: json where
  "pass_json = JObject [(''safe'', JBool True), (''syntax_valid'', JBool True),
                        (''quality_pass'', JBool True), (''errors'', JArray [])]"

definition translation_down_services :: services where
  "translation_down_services =
     \<lparr>translate_llm = (\<lambda>chunk terms. None),
      critic_llm = (\<lambda>orig tr. Some pass_response),
      fixer_llm = (\<lambda>orig tr errs terms. None),
      json_loads = (\<lambda>s. if s = pass_response then Some pass_json else None)\<rparr>"

definition outage_services :: services where
  "outage_services =
     \<lparr>translate_llm = (\<lambda>chunk terms. None),
      critic_llm = (\<lambda>orig tr. None),
      fixer_llm = (\<lambda>orig tr errs terms. None),
      json_loads = (\<lambda>s. None)\<rparr>"

definition stringly_response :: string where
  \<open>stringly_response = ''{"safe": "false", "syntax_valid": "false", "quality_pass": "false"}''\<close>

definition stringly_json :: json where
  "stringly_json = JObject [(''safe'', JString ''false''), (''syntax_valid'', JString ''false''),
                            (''quality_pass'', JString ''false'')]"

definition stringly_services :: services where
  "stringly_services =
     \<lparr>translate_llm = (\<lambda>chunk terms. Some ''Bonjour''),
      critic_llm = (\<lambda>orig tr. Some stringly_response),
      fixer_llm = (\<lambda>orig tr errs terms. None),
      json_loads = (\<lambda>s. if s = stringly_response then Some stringly_json else None)\<rparr>"

definition translated_state :: TranslationState where
  "translated_state = (initial_state ''Hello'' 0 [])\<lparr>translated_chunk := Some ''Bonjour''\<rparr>"

section \<open>Auxiliary notions and the worked examples of the masker\<close>

text \<open>\<open>sep.join(pieces)\<close>.\<close>

fun join_with :: "string \<Rightarrow> string list \<Rightarrow> string" where
  "join_with sep [] = []"
| "join_with sep [p] = p"
| "join_with sep (p # q # ps) = p @ sep @ join_with sep (q # ps)"

definition einstein_text :: string where
  "einstein_text = ''The $E=mc^2$ law is due to '' @ backslash # ''cite{einstein}.''"

definition einstein_nodes :: "latex_node list" where
  "einstein_nodes =
     [LatexCharsNode 0 4, LatexMathNode 4 8 [LatexCharsNode 5 6], LatexCharsNode 12 15,
      LatexMacroNode ''cite'' 27 15, LatexCharsNode 42 1]"

definition listing_text :: string where
  "listing_text = backslash # ''begin{lstlisting}[language=Python]'' @ nl # ''print(1)''
                    @ nl # backslash # ''end{lstlisting}''"

definition listing_nodes :: "latex_node list" where
  "listing_nodes = [LatexEnvironmentNode ''lstlisting'' 0 61 [LatexCharsNode 35 10]]"


text \<open>
  A \<open>verbatim\<close> environment: the parser keeps its body among the arguments of the
  environment, so the node has an empty node list.
\<close>

definition verbatim_text :: string where
  "verbatim_text = backslash # ''begin{verbatim}'' @ nl # ''x = 1'' @ nl # backslash # ''end{verbatim}''"

definition verbatim_nodes :: "latex_node list" where
  "verbatim_nodes = [LatexEnvironmentNode ''verbatim'' 0 37 []]"





section \<open>Well-nested node lists and ordered ranges\<close>

text \<open>
  What the parser guarantees about positions: in a node list laid out in the
  segment from \<open>lo\<close> to \<open>hi\<close> of the text every node is non-empty and lies in the
  segment, a node starts where its left sibling ends or later, and the node list
  of a node lies inside the node.
\<close>

fun well_nested :: "int \<Rightarrow> int \<Rightarrow> latex_node list \<Rightarrow> bool" where
  "well_nested lo hi [] = True"
| "well_nested lo hi (LatexCharsNode p l # ns) =
     (lo \<le> p \<and> 0 < l \<and> p + l \<le> hi \<and> well_nested (p + l) hi ns)"
| "well_nested lo hi (LatexCommentNode p l # ns) =
     (lo \<le> p \<and> 0 < l \<and> p + l \<le> hi \<and> well_nested (p + l) hi ns)"
| "well_nested lo hi (LatexSpecialsNode p l # ns) =
     (lo \<le> p \<and> 0 < l \<and> p + l \<le> hi \<and> well_nested (p + l) hi ns)"
| "well_nested lo hi (LatexMacroNode name p l # ns) =
     (lo \<le> p \<and> 0 < l \<and> p + l \<le> hi \<and> well_nested (p + l) hi ns)"
| "well_nested lo hi (LatexGroupNode p l cs # ns) =
     (lo \<le> p \<and> 0 < l \<and> p + l \<le> hi \<and> well_nested p (p + l) cs
      \<and> well_nested (p + l) hi ns)"
| "well_nested lo hi (LatexMathNode p l cs # ns) =
     (lo \<le> p \<and> 0 < l \<and> p + l \<le> hi \<and> well_nested p (p + l) cs
      \<and> well_nested (p + l) hi ns)"
| "well_nested lo hi (LatexEnvironmentNode name p l cs # ns) =
     (lo \<le> p \<and> 0 < l \<and> p + l \<le> hi \<and> well_nested p (p + l) cs
      \<and> well_nested (p + l) hi ns)"

text \<open>
  A list of ranges in ascending order inside the segment from \<open>lo\<close> to \<open>hi\<close>: each
  range is non-empty and starts where the previous one ends or later.
\<close>

fun ranges_chain :: "int \<Rightarrow> int \<Rightarrow> mask_range list \<Rightarrow> bool" where
  "ranges_chain lo hi [] = True"
| "ranges_chain lo hi ((s, e, h) # rs) =
     (lo \<le> s \<and> s < e \<and> e \<le> hi \<and> ranges_chain e hi rs)"

text \<open>Two ranges do not overlap when one ends where the other starts or before.\<close>

definition ranges_disjoint :: "mask_range \<Rightarrow> mask_range \<Rightarrow> bool" where
  "ranges_disjoint r1 r2 = (fst (snd r1) \<le> fst r2 \<or> fst (snd r2) \<le> fst r1)"

section \<open>Notions for the round trip\<close>

text \<open>
  The shape of a mask token: \<open>[MASK_\<close>, a body without brackets, \<open>]\<close>. A type tag
  is fit for a token when it contains no bracket.
\<close>

definition hint_ok :: "string \<Rightarrow> bool" where
  "hint_ok h = (CHR ''['' \<notin> set h \<and> CHR '']'' \<notin> set h)"

definition is_mask_token :: "string \<Rightarrow> bool" where
  "is_mask_token t =
     (\<exists>b. t = ''[MASK_'' @ b @ '']'' \<and> CHR ''['' \<notin> set b \<and> CHR '']'' \<notin> set b)"

text \<open>The number that a string of decimal digits denotes.\<close>

definition digit_val :: "char \<Rightarrow> nat" where
  "digit_val c = (of_char c :: nat) - 48"

definition str_val :: "string \<Rightarrow> nat" where
  "str_val s = foldl (\<lambda>a c. 10 * a + digit_val c) 0 s"

text \<open>
  The replacements made for an ascending list of ranges when the counter starts
  at \<open>c\<close>: the loop visits the ranges from the right, so a range gets \<open>c\<close> plus the
  number of ranges to its right. \<open>render\<close> is the text from \<open>pos\<close> on with these
  replacements made, \<open>table_of\<close> the table in the order of insertion.
\<close>

fun tok_items :: "nat \<Rightarrow> mask_range list \<Rightarrow> (nat \<times> nat \<times> string) list" where
  "tok_items c [] = []"
| "tok_items c ((s, e, h) # rs) =
     (nat s, nat e, mask_token h (c + length rs)) # tok_items c rs"

fun render :: "string \<Rightarrow> nat \<Rightarrow> (nat \<times> nat \<times> string) list \<Rightarrow> string" where
  "render text pos [] = drop pos text"
| "render text pos ((s, e, tok) # items) =
     take (s - pos) (drop pos text) @ tok @ render text e items"

fun table_of :: "string \<Rightarrow> (nat \<times> nat \<times> string) list \<Rightarrow> mask_table" where
  "table_of text [] = []"
| "table_of text ((s, e, tok) # items) =
     table_of text items @ [(tok, take (e - s) (drop s text))]"

text \<open>A text that already contains the text of a token.\<close>

definition collision_text :: string where
  "collision_text = ''[MASK_MATH_0000]$x$''"

definition collision_nodes :: "latex_node list" where
  "collision_nodes = [LatexCharsNode 0 16, LatexMathNode 16 3 [LatexCharsNode 17 1]]"

section \<open>Segmentation is lossless\<close>

lemma concat_re_split_paragraphs:
  "concat (re_split_paragraphs acc s) = acc @ s"
proof (induction acc s rule: re_split_paragraphs.induct)
  case (1 acc)
  show ?case by simp
next
  case (2 acc c cs)
  show ?case
  proof (cases "c = nl \<and> cs \<noteq> [] \<and> hd cs = nl")
    case True
    have "concat (re_split_paragraphs acc (c # cs)) =
            acc @ takeWhile (\<lambda>x. x = nl) (c # cs)
              @ concat (re_split_paragraphs [] (dropWhile (\<lambda>x. x = nl) (c # cs)))"
      using True by simp
    also have "\<dots> = acc @ takeWhile (\<lambda>x. x = nl) (c # cs)
                       @ dropWhile (\<lambda>x. x = nl) (c # cs)"
      using "2.IH"(1) [OF True] by simp
    also have "\<dots> = acc @ (c # cs)"
      by (simp only: takeWhile_dropWhile_id)
    finally show ?thesis .
  next
    case False
    then have "concat (re_split_paragraphs acc (c # cs)) =
                 concat (re_split_paragraphs (acc @ [c]) cs)"
      by auto
    also have "\<dots> = (acc @ [c]) @ cs"
      using "2.IH"(2) [OF False] .
    finally show ?thesis by simp
  qed
qed

lemma split_loop_concat:
  "split_loop m ps (chunks, cur, n) = (chunks', cur', n') \<Longrightarrow>
     concat chunks' @ concat cur' = concat chunks @ concat cur @ concat ps"
proof (induction ps arbitrary: chunks cur n)
  case Nil
  then show ?case by simp
next
  case (Cons para ps)
  show ?case
  proof (cases "n + int (length para) > m \<and> cur \<noteq> []")
    case True
    with Cons.prems have
      "split_loop m ps (chunks @ [concat cur], [para], int (length para)) = (chunks', cur', n')"
      by simp
    from Cons.IH [OF this] show ?thesis by simp
  next
    case False
    with Cons.prems have
      "split_loop m ps (chunks, cur @ [para], n + int (length para)) = (chunks', cur', n')"
      by auto
    from Cons.IH [OF this] show ?thesis by simp
  qed
qed

text \<open>
  C4. Concatenating, in order, the chunks returned by \<open>smart_split\<close> gives back
  the input text exactly, for every text and every \<open>max_chars\<close> (so in particular
  for every \<open>max_chars \<ge> 1\<close>): nothing is lost, duplicated or reordered, the
  blank-line separators included.
\<close>

theorem smart_split_lossless:
  "concat (smart_split text max_chars) = text"
proof -
  obtain chunks cur n where
    st: "split_loop max_chars (re_split_paragraphs [] text) ([], [], 0) = (chunks, cur, n)"
    by (metis prod_cases3)
  from split_loop_concat [OF st]
  have eq: "concat chunks @ concat cur = text"
    by (simp add: concat_re_split_paragraphs)
  show ?thesis
    using eq by (auto simp add: smart_split_def st)
qed

section \<open>The translation pipeline\<close>

lemma critic_verdict_falsy:
  "\<not> py_truthy (critic_verdict sv orig tr) \<Longrightarrow> critic_verdict sv orig tr = JArray []"
  by (auto simp: critic_verdict_def critic_parse_failed_def Let_def
           split: option.splits json.splits if_splits)

lemma critic_verdict_pass_iff:
  "(\<not> py_truthy (critic_verdict sv orig tr)) =
     (\<exists>response result.
         critic_llm sv orig tr = Some response \<and>
         json_loads sv (critic_payload response) = Some (JObject result) \<and>
         py_truthy (dict_get result ''safe'' (JBool False)) \<and>
         py_truthy (dict_get result ''syntax_valid'' (JBool False)) \<and>
         py_truthy (dict_get result ''quality_pass'' (JBool False)))"
  by (auto simp: critic_verdict_def critic_parse_failed_def Let_def
           split: option.splits json.splits if_splits)

lemma loop_never_ends:
  assumes fails: "\<And>orig tr. py_truthy (critic_verdict sv orig tr)"
  shows "translated_chunk s \<noteq> None \<Longrightarrow>
           run_graph sv limit CriticNode s = Inl GraphRecursionError \<and>
           run_graph sv limit FixerNode s = Inl GraphRecursionError"
proof (induction limit arbitrary: s)
  case 0
  show ?case by simp
next
  case (Suc limit)
  from Suc.prems obtain tr where tr: "translated_chunk s = Some tr" by auto
  let ?s1 = "s\<lparr>critic_errors := critic_verdict sv (original_chunk s) tr\<rparr>"
  have c: "critic_node sv s = Inr ?s1" by (simp add: critic_node_def tr)
  have "check_critic ?s1 = ''fail''" by (simp add: check_critic_def fails)
  then have step_c: "graph_step sv CriticNode s = Inr (FixerNode, ?s1)"
    by (simp add: c)
  have "translated_chunk ?s1 \<noteq> None" by (simp add: tr)
  from Suc.IH [OF this] step_c
  have A: "run_graph sv (Suc limit) CriticNode s = Inl GraphRecursionError"
    by simp
  obtain s2 where f: "fixer_node sv s = Inr s2" and t2: "translated_chunk s2 \<noteq> None"
    by (cases "3 \<le> failed_attempts s";
        cases "fixer_llm sv (original_chunk s) tr (critic_errors s) (terminology s)")
       (auto simp: fixer_node_def Let_def tr)
  then have step_f: "graph_step sv FixerNode s = Inr (CriticNode, s2)" by simp
  from Suc.IH [OF t2] step_f
  have B: "run_graph sv (Suc limit) FixerNode s = Inl GraphRecursionError"
    by simp
  from A B show ?case by simp
qed

lemma never_done_from_translate:
  assumes fails: "\<And>orig tr. py_truthy (critic_verdict sv orig tr)"
  shows "run_graph sv limit TranslateNode s = Inl GraphRecursionError"
proof (cases limit)
  case 0
  then show ?thesis by simp
next
  case (Suc k)
  have "translated_chunk (translate_node sv s) \<noteq> None"
    by (simp add: translate_node_def Let_def split: option.splits)
  from loop_never_ends [of sv _ k, OF fails this]
  show ?thesis by (simp add: Suc)
qed

text \<open>
  C2. A chunk whose critique fails on every invocation: the specification says
  that the pipeline ends after cap + 1 = 4 cycles with \<open>translated_chunk\<close> equal to
  \<open>original_chunk\<close>. In the code the fourth call of \<open>fixer_node\<close> does revert
  \<open>translated_chunk\<close> and clear \<open>critic_errors\<close>, but the only edge that leaves
  \<open>fixer\<close> leads to \<open>critic\<close>, whose failure fills \<open>critic_errors\<close> again. So the
  run never reaches \<open>END\<close>: whatever the recursion limit, it ends with
  \<open>GraphRecursionError\<close>.
\<close>

theorem always_failing_critic_never_done:
  assumes "\<forall>orig tr. py_truthy (critic_verdict sv orig tr)"
  shows "pipeline_invoke sv limit (initial_state chunk i terms) = Inl GraphRecursionError"
  using assms by (simp add: pipeline_invoke_def never_done_from_translate)

theorem always_failing_critic_never_done_witness:
  "(\<forall>orig tr. py_truthy (critic_verdict rejecting_services orig tr)) \<and>
   pipeline_invoke rejecting_services 25 (initial_state ''Hello'' 0 []) = Inl GraphRecursionError"
proof -
  have h: "\<forall>orig tr. py_truthy (critic_verdict rejecting_services orig tr)"
    by (simp add: critic_verdict_def rejecting_services_def critic_parse_failed_def)
  from always_failing_critic_never_done [OF h, of 25 "''Hello''" 0 "[]"] h
  show ?thesis by simp
qed

lemma run_graph_END: "run_graph sv limit END s = Inr s' \<Longrightarrow> s' = s"
  by (cases limit) simp_all

lemma translate_failure_invariant:
  assumes inv: "translated_chunk s = Some (original_chunk s)" "3 \<le> failed_attempts s"
  shows "(run_graph sv limit CriticNode s = Inr s' \<longrightarrow>
            translated_chunk s' = Some (original_chunk s)) \<and>
         (run_graph sv limit FixerNode s = Inr s' \<longrightarrow>
            translated_chunk s' = Some (original_chunk s))"
  using inv
proof (induction limit arbitrary: s)
  case 0
  show ?case by simp
next
  case (Suc limit)
  let ?s1 = "s\<lparr>critic_errors := critic_verdict sv (original_chunk s) (original_chunk s)\<rparr>"
  let ?s2 = "s\<lparr>translated_chunk := Some (original_chunk s),
               failed_attempts := failed_attempts s + 1, critic_errors := JArray []\<rparr>"
  have c: "critic_node sv s = Inr ?s1"
    by (simp add: critic_node_def Suc.prems)
  have f: "fixer_node sv s = Inr ?s2"
    using Suc.prems by (simp add: fixer_node_def Let_def)
  have i1: "translated_chunk ?s1 = Some (original_chunk ?s1)" "3 \<le> failed_attempts ?s1"
    using Suc.prems by simp_all
  have i2: "translated_chunk ?s2 = Some (original_chunk ?s2)" "3 \<le> failed_attempts ?s2"
    using Suc.prems by simp_all
  have A: "run_graph sv (Suc limit) CriticNode s = Inr s' \<longrightarrow>
             translated_chunk s' = Some (original_chunk s)"
    using Suc.IH [OF i1] Suc.prems by (auto simp: c dest: run_graph_END)
  have B: "run_graph sv (Suc limit) FixerNode s = Inr s' \<longrightarrow>
             translated_chunk s' = Some (original_chunk s)"
    using Suc.IH [OF i2] by (simp add: f)
  from A B show ?case by simp
qed

text \<open>
  C3, as amended. If every call of the translation service raises, \<open>translate_node\<close>
  raises nothing: it sets \<open>translated_chunk\<close> to \<open>original_chunk\<close>,
  \<open>failed_attempts\<close> to 999 and \<open>critic_errors\<close> to \<open>["LLM Call Failed"]\<close>, and the
  graph goes on to \<open>critic\<close> (not to \<open>END\<close>). Whenever the run then returns a
  state, its \<open>translated_chunk\<close> is \<open>original_chunk\<close>; and it does return, at the
  first critique, when the critique of the unchanged chunk passes and the
  recursion limit is at least 3 (two nodes are run).
\<close>

theorem translate_failure_fallback:
  assumes down: "\<forall>chunk terms. translate_llm sv chunk terms = None"
  shows "graph_step sv TranslateNode s =
           Inr (CriticNode, s\<lparr>translated_chunk := Some (original_chunk s),
                               failed_attempts := 999,
                               critic_errors := JArray [JString ''LLM Call Failed'']\<rparr>)
         \<and> (pipeline_invoke sv limit s = Inr s' \<longrightarrow>
               translated_chunk s' = Some (original_chunk s))
         \<and> (\<not> py_truthy (critic_verdict sv (original_chunk s) (original_chunk s))
                \<and> 3 \<le> limit \<longrightarrow>
               pipeline_invoke sv limit s =
                 Inr (s\<lparr>translated_chunk := Some (original_chunk s),
                          failed_attempts := 999, critic_errors := JArray []\<rparr>))"
proof -
  let ?s1 = "s\<lparr>translated_chunk := Some (original_chunk s), failed_attempts := 999,
               critic_errors := JArray [JString ''LLM Call Failed'']\<rparr>"
  have t: "translate_node sv s = ?s1"
    using down by (simp add: translate_node_def Let_def)
  then have step: "graph_step sv TranslateNode s = Inr (CriticNode, ?s1)"
    by simp
  have inv: "translated_chunk ?s1 = Some (original_chunk ?s1)" "3 \<le> failed_attempts ?s1"
    by simp_all
  have part2: "pipeline_invoke sv limit s = Inr s' \<longrightarrow>
                 translated_chunk s' = Some (original_chunk s)"
  proof (cases limit)
    case 0
    then show ?thesis by (simp add: pipeline_invoke_def)
  next
    case (Suc k)
    from translate_failure_invariant [OF inv, of sv k s']
    show ?thesis by (simp add: pipeline_invoke_def Suc t)
  qed
  have part3: "\<not> py_truthy (critic_verdict sv (original_chunk s) (original_chunk s))
                 \<and> 3 \<le> limit \<longrightarrow>
               pipeline_invoke sv limit s =
                 Inr (s\<lparr>translated_chunk := Some (original_chunk s),
                          failed_attempts := 999, critic_errors := JArray []\<rparr>)"
  proof
    assume h: "\<not> py_truthy (critic_verdict sv (original_chunk s) (original_chunk s))
                 \<and> 3 \<le> limit"
    then have "limit = Suc (Suc (Suc (limit - 3)))"
      by arith
    then obtain k where k: "limit = Suc (Suc (Suc k))" ..
    from h have v: "critic_verdict sv (original_chunk s) (original_chunk s) = JArray []"
      by (simp add: critic_verdict_falsy)
    show "pipeline_invoke sv limit s =
            Inr (s\<lparr>translated_chunk := Some (original_chunk s),
                     failed_attempts := 999, critic_errors := JArray []\<rparr>)"
      by (simp add: pipeline_invoke_def k t critic_node_def v check_critic_def)
  qed
  from step part2 part3 show ?thesis by blast
qed

lemma critic_payload_pass_response: "critic_payload pass_response = pass_response"
  by (simp add: critic_payload_def pass_response_def py_strip_def py_isspace_def
        fence_def fence_json_def)

lemma translation_down_verdict: "critic_verdict translation_down_services orig tr = JArray []"
  by (simp add: critic_verdict_def translation_down_services_def critic_payload_pass_response
        pass_json_def dict_get_def)

theorem translate_failure_fallback_witness:
  "(\<forall>chunk terms. translate_llm translation_down_services chunk terms = None) \<and>
   graph_step translation_down_services TranslateNode (initial_state ''Hello'' 0 []) =
     Inr (CriticNode, (initial_state ''Hello'' 0 [])
            \<lparr>translated_chunk := Some ''Hello'', failed_attempts := 999,
             critic_errors := JArray [JString ''LLM Call Failed'']\<rparr>) \<and>
   pipeline_invoke translation_down_services 3 (initial_state ''Hello'' 0 []) =
     Inr ((initial_state ''Hello'' 0 [])
            \<lparr>translated_chunk := Some ''Hello'', failed_attempts := 999,
             critic_errors := JArray []\<rparr>) \<and>
   translated_chunk ((initial_state ''Hello'' 0 [])
            \<lparr>translated_chunk := Some ''Hello'', failed_attempts := 999,
             critic_errors := JArray []\<rparr>) = Some ''Hello''"
proof -
  have h: "\<forall>chunk terms. translate_llm translation_down_services chunk terms = None"
    by (simp add: translation_down_services_def)
  have o: "original_chunk (initial_state ''Hello'' 0 []) = ''Hello''"
    by (simp add: initial_state_def)
  from translate_failure_fallback [OF h, of "initial_state ''Hello'' 0 []" 3
         "(initial_state ''Hello'' 0 [])
            \<lparr>translated_chunk := Some ''Hello'', failed_attempts := 999,
             critic_errors := JArray []\<rparr>"] h
  show ?thesis by (simp add: o translation_down_verdict)
qed

text \<open>
  C3 as stated fails: after a failed translation the next node is \<open>critic\<close>, not
  \<open>END\<close>, and with all three services down the run ends with an exception.
\<close>

theorem translate_failure_not_direct:
  "graph_step outage_services TranslateNode (initial_state ''Hello'' 0 []) =
     Inr (CriticNode, (initial_state ''Hello'' 0 [])
            \<lparr>translated_chunk := Some ''Hello'', failed_attempts := 999,
             critic_errors := JArray [JString ''LLM Call Failed'']\<rparr>) \<and>
   pipeline_invoke outage_services 25 (initial_state ''Hello'' 0 []) =
     Inl GraphRecursionError"
proof -
  have t: "translate_node outage_services (initial_state ''Hello'' 0 []) =
             (initial_state ''Hello'' 0 [])
               \<lparr>translated_chunk := Some ''Hello'', failed_attempts := 999,
                critic_errors := JArray [JString ''LLM Call Failed'']\<rparr>"
    by (simp add: translate_node_def outage_services_def initial_state_def)
  have f: "py_truthy (critic_verdict outage_services orig tr)" for orig tr
    by (simp add: critic_verdict_def outage_services_def critic_parse_failed_def)
  have "pipeline_invoke outage_services 25 (initial_state ''Hello'' 0 []) =
     Inl GraphRecursionError"
    by (simp add: pipeline_invoke_def never_done_from_translate [OF f])
  then show ?thesis by (simp add: t)
qed

text \<open>
  What \<open>critic_node\<close> computes: the critique passes (empty \<open>critic_errors\<close>) exactly
  when the text handed to \<open>json.loads\<close> parses to an object whose entries \<open>safe\<close>,
  \<open>syntax_valid\<close> and \<open>quality_pass\<close> all have a true truth value in a Python
  condition; in every other case \<open>critic_errors\<close> is non-empty and \<open>check_critic\<close>
  answers \<open>fail\<close>.
\<close>

theorem critic_node_pass_iff_truthy:
  assumes tr: "translated_chunk state = Some translated"
  shows "\<exists>state'. critic_node sv state = Inr state' \<and>
           ((check_critic state' = ''pass'') =
              (\<exists>response result.
                 critic_llm sv (original_chunk state) translated = Some response \<and>
                 json_loads sv (critic_payload response) = Some (JObject result) \<and>
                 py_truthy (dict_get result ''safe'' (JBool False)) \<and>
                 py_truthy (dict_get result ''syntax_valid'' (JBool False)) \<and>
                 py_truthy (dict_get result ''quality_pass'' (JBool False)))) \<and>
           (if check_critic state' = ''pass''
            then critic_errors state' = JArray []
            else check_critic state' = ''fail'' \<and> py_truthy (critic_errors state'))"
proof -
  let ?v = "critic_verdict sv (original_chunk state) translated"
  have c: "critic_node sv state = Inr (state\<lparr>critic_errors := ?v\<rparr>)"
    by (simp add: critic_node_def tr)
  have p: "(check_critic (state\<lparr>critic_errors := ?v\<rparr>) = ''pass'') = (\<not> py_truthy ?v)"
    by (simp add: check_critic_def)
  show ?thesis
    unfolding c
    apply (rule exI [of _ "state\<lparr>critic_errors := ?v\<rparr>"])
    apply (simp only: p critic_verdict_pass_iff [symmetric])
    apply (auto simp: check_critic_def critic_verdict_falsy)
    done
qed

lemma critic_payload_stringly_response: "critic_payload stringly_response = stringly_response"
  by (simp add: critic_payload_def stringly_response_def py_strip_def py_isspace_def
        fence_def fence_json_def)

theorem critic_node_pass_iff_truthy_witness:
  "translated_chunk translated_state = Some ''Bonjour'' \<and>
   (\<exists>state'. critic_node translation_down_services translated_state = Inr state' \<and>
      check_critic state' = ''pass'' \<and> critic_errors state' = JArray [])"
proof -
  have tr: "translated_chunk translated_state = Some ''Bonjour''"
    by (simp add: translated_state_def)
  have ex: "\<exists>response result.
              critic_llm translation_down_services (original_chunk translated_state) ''Bonjour'' = Some response \<and>
              json_loads translation_down_services (critic_payload response) = Some (JObject result) \<and>
              py_truthy (dict_get result ''safe'' (JBool False)) \<and>
              py_truthy (dict_get result ''syntax_valid'' (JBool False)) \<and>
              py_truthy (dict_get result ''quality_pass'' (JBool False))"
    by (simp add: translation_down_services_def critic_payload_pass_response pass_json_def dict_get_def)
  from critic_node_pass_iff_truthy [OF tr, of translation_down_services] ex
  obtain state' where "critic_node translation_down_services translated_state = Inr state'"
    and "check_critic state' = ''pass''"
    and "if check_critic state' = ''pass'' then critic_errors state' = JArray []
         else check_critic state' = ''fail'' \<and> py_truthy (critic_errors state')"
    by blast
  then show ?thesis using tr by auto
qed

text \<open>
  C9. The specification lets a critique pass only when the response is parseable
  and the three booleans \<open>safe\<close>, \<open>syntax_valid\<close> and \<open>quality_pass\<close> are true, and
  wants every malformed response treated as a failure. The code tests the truth
  value of whatever \<open>json.loads\<close> returned and never checks that the flags are
  booleans: on the response whose three flags are the strings \<open>"false"\<close> (a
  response that answers "false" three times, in the wrong type) \<open>critic_node\<close>
  returns an empty \<open>critic_errors\<close> and \<open>check_critic\<close> answers \<open>pass\<close>.
\<close>

theorem critic_accepts_string_flags:
  "critic_node stringly_services translated_state =
     Inr (translated_state\<lparr>critic_errors := JArray []\<rparr>) \<and>
   check_critic (translated_state\<lparr>critic_errors := JArray []\<rparr>) = ''pass'' \<and>
   json_loads stringly_services (critic_payload stringly_response) =
     Some (JObject [(''safe'', JString ''false''), (''syntax_valid'', JString ''false''),
                    (''quality_pass'', JString ''false'')])"
  by (simp add: critic_node_def translated_state_def initial_state_def critic_verdict_def
        stringly_services_def critic_payload_stringly_response stringly_json_def
        dict_get_def check_critic_def)

section \<open>Evaluation on concrete inputs\<close>

lemmas masker_eval =
  mask_content_def sort_ranges_def MASKED_MACROS_def CODE_ENVS_def py_slice_def
  py_slice_index_def py_slice_assign_def mask_token_def py_format_04d_def py_upper_def
  upper_char_def digit_char_def backslash_def nl_def Let_def py_str_nat.simps

lemma replicate_zeros:
  "replicate 3 (CHR ''0'') = ''000''" "replicate 2 (CHR ''0'') = ''00''"
  "replicate (Suc 0) (CHR ''0'') = ''0''"
  by (simp_all add: numeral_3_eq_3 numeral_2_eq_2)

section \<open>Unmasking\<close>

lemma py_in_iff_sublist: "py_in sub s = sublist sub s"
  by (induction s) (auto simp: sublist_Cons_right)

lemma py_replace_pass:
  "old \<noteq> [] \<Longrightarrow> (\<And>i. i < length a \<Longrightarrow> \<not> prefix old (drop i (a @ x))) \<Longrightarrow>
     py_replace (a @ x) old new = a @ py_replace x old new"
proof (induction a)
  case Nil
  show ?case by simp
next
  case (Cons c a)
  have "\<not> prefix old (drop 0 ((c # a) @ x))"
    by (rule Cons.prems(2)) simp
  then have np: "\<not> prefix old (c # a @ x)" by simp
  have "\<not> prefix old (drop i (a @ x))" if "i < length a" for i
    using Cons.prems(2) [of "Suc i"] that by simp
  from Cons.IH [OF Cons.prems(1) this]
  show ?case using np Cons.prems(1) by simp
qed

lemma py_replace_absent:
  assumes "\<not> py_in old s"
  shows "py_replace s old new = s"
proof -
  from assms have ne: "old \<noteq> []"
    by (cases s) auto
  have "\<not> prefix old (drop i (s @ []))" if "i < length s" for i
  proof
    assume "prefix old (drop i (s @ []))"
    then have "sublist old (drop i s)" by (simp add: prefix_imp_sublist)
    then have "sublist old s"
      by (rule sublist_order.order_trans [OF _ sublist_drop])
    with assms show False by (simp add: py_in_iff_sublist)
  qed
  from py_replace_pass [where a = s and x = "[]" and old = old and new = new, OF ne this]
  show ?thesis using ne by (cases s) simp_all
qed

lemma py_replace_at_occurrence:
  assumes ne: "old \<noteq> []"
  shows "py_replace (old @ x) old new = new @ py_replace x old new"
proof -
  from ne obtain c cs where o: "old = c # cs" by (cases old) auto
  have "py_replace ((c # cs) @ x) (c # cs) new = new @ py_replace x (c # cs) new"
    by simp
  then show ?thesis by (simp add: o)
qed

lemma prefix_of_long_front:
  "prefix p (d @ y) \<Longrightarrow> length p \<le> length d \<Longrightarrow> prefix p d"
  using prefix_length_prefix [where ps = p and xs = "d @ y" and qs = d] by simp

lemma py_replace_first:
  assumes ne: "old \<noteq> []" and first: "\<not> py_in old (p @ butlast old)"
  shows "py_replace (p @ old @ x) old new = p @ new @ py_replace x old new"
proof -
  have "\<not> prefix old (drop i (p @ old @ x))" if i: "i < length p" for i
  proof
    assume pre: "prefix old (drop i (p @ old @ x))"
    have "old = butlast old @ [last old]"
      using ne by simp
    then have "p @ old @ x = (p @ butlast old) @ (last old # x)"
      by (metis append.assoc append_Cons append_Nil)
    then have d: "drop i (p @ old @ x) = drop i (p @ butlast old) @ (last old # x)"
      using i by simp
    have "length old \<le> length (drop i (p @ butlast old))"
      using i by simp
    with pre have "prefix old (drop i (p @ butlast old))"
      unfolding d by (rule prefix_of_long_front)
    then have "sublist old (drop i (p @ butlast old))"
      by (rule prefix_imp_sublist)
    then have "sublist old (p @ butlast old)"
      by (rule sublist_order.order_trans [OF _ sublist_drop])
    with first show False by (simp add: py_in_iff_sublist)
  qed
  from py_replace_pass [where a = p and x = "old @ x" and old = old and new = new, OF ne this]
  show ?thesis by (simp add: py_replace_at_occurrence [OF ne])
qed

lemma py_replace_join:
  assumes ne: "token \<noteq> []"
    and pieces: "\<forall>p \<in> set ps. \<not> py_in token (p @ butlast token)"
  shows "py_replace (join_with token ps) token original = join_with original ps"
  using pieces
proof (induction ps)
  case Nil
  show ?case using ne by simp
next
  case (Cons p ps)
  note prems = Cons.prems and IH = Cons.IH
  show ?case
  proof (cases ps)
    case Nil
    from prems have "\<not> sublist token (p @ butlast token)"
      by (simp add: py_in_iff_sublist)
    then have "\<not> sublist token p"
      using sublist_order.order_trans [OF _ sublist_append_rightI, of token p "butlast token"]
      by blast
    then show ?thesis by (simp add: Nil py_replace_absent py_in_iff_sublist)
  next
    case (Cons q qs)
    from prems have first: "\<not> py_in token (p @ butlast token)" by simp
    have "py_replace (join_with token (p # ps)) token original =
            p @ original @ py_replace (join_with token ps) token original"
      by (simp add: Cons py_replace_first [OF ne first])
    also have "\<dots> = p @ original @ join_with original ps"
      using IH prems by simp
    finally show ?thesis by (simp add: Cons)
  qed
qed

lemma unmask_content_absent:
  "\<forall>(token, original) \<in> set masks. \<not> py_in token text \<Longrightarrow>
     unmask_content text masks = text"
  by (induction masks) (auto simp: py_replace_absent)

text \<open>
  C10. \<open>unmask_content\<close> goes through the table in its order and, for each entry,
  replaces every occurrence of the token, not only the first, by the recorded
  original; the entries that follow are applied to the result. So for a table
  with any number of entries: a text made of pieces separated by the first token
  of the table (no occurrence of the token starts inside a piece) is unmasked as
  the same pieces separated by the original of that token are by the rest of the
  table. In particular, a text that contains no token of the table is returned
  unchanged.
\<close>

theorem unmask_content_replaces_all:
  "(token \<noteq> [] \<and> (\<forall>p \<in> set pieces. \<not> py_in token (p @ butlast token)) \<longrightarrow>
      unmask_content (join_with token pieces) ((token, original) # masks) =
        unmask_content (join_with original pieces) masks)
   \<and> ((\<forall>(token, original) \<in> set masks. \<not> py_in token text) \<longrightarrow>
      unmask_content text masks = text)"
proof (intro conjI impI)
  assume a: "token \<noteq> [] \<and> (\<forall>p \<in> set pieces. \<not> py_in token (p @ butlast token))"
  from a have ne: "token \<noteq> []" by (rule conjunct1)
  from a have ps: "\<forall>p \<in> set pieces. \<not> py_in token (p @ butlast token)" by (rule conjunct2)
  have "py_replace (join_with token pieces) token original = join_with original pieces"
    using ne ps by (rule py_replace_join)
  then show "unmask_content (join_with token pieces) ((token, original) # masks) =
      unmask_content (join_with original pieces) masks"
    by (simp only: unmask_content.simps)
next
  assume "\<forall>(token, original) \<in> set masks. \<not> py_in token text"
  then show "unmask_content text masks = text" by (rule unmask_content_absent)
qed

theorem unmask_content_replaces_all_witness:
  "unmask_content ''a [MASK_MATH_0001] b [MASK_CMD_CITE_0000] c [MASK_MATH_0001].''
     [(''[MASK_CMD_CITE_0000]'', backslash # ''cite{k}''), (''[MASK_MATH_0001]'', ''$x$'')]
     = ''a $x$ b '' @ backslash # ''cite{k} c $x$.'' \<and>
   unmask_content ''plain text''
     [(''[MASK_CMD_CITE_0000]'', backslash # ''cite{k}''), (''[MASK_MATH_0001]'', ''$x$'')]
     = ''plain text''"
proof -
  let ?cite = "''[MASK_CMD_CITE_0000]''" and ?math = "''[MASK_MATH_0001]''"
  let ?o = "backslash # ''cite{k}''"
  let ?ps1 = "[''a [MASK_MATH_0001] b '', '' c [MASK_MATH_0001].'']"
  let ?ps2 = "[''a '', '' b '' @ ?o @ '' c '', ''.'']"
  have h1: "?cite \<noteq> [] \<and> (\<forall>p \<in> set ?ps1. \<not> py_in ?cite (p @ butlast ?cite))"
    by simp
  have h2: "?math \<noteq> [] \<and> (\<forall>p \<in> set ?ps2. \<not> py_in ?math (p @ butlast ?math))"
    by (simp add: backslash_def)
  have h3: "\<forall>(token, original) \<in> set [(?cite, ?o), (?math, ''$x$'')]. \<not> py_in token ''plain text''"
    by simp
  have j1: "join_with ?cite ?ps1 = ''a [MASK_MATH_0001] b [MASK_CMD_CITE_0000] c [MASK_MATH_0001].''"
    by simp
  have j2: "join_with ?o ?ps1 = join_with ?math ?ps2"
    by simp
  have j3: "join_with ''$x$'' ?ps2 = ''a $x$ b '' @ backslash # ''cite{k} c $x$.''"
    by simp
  note T1 = unmask_content_replaces_all [of ?cite ?ps1 ?o "[(?math, ''$x$'')]",
              THEN conjunct1, THEN mp, OF h1]
  note T2 = unmask_content_replaces_all [of ?math ?ps2 "''$x$''" "[]",
              THEN conjunct1, THEN mp, OF h2]
  note T3 = unmask_content_replaces_all [of _ _ _ "[(?cite, ?o), (?math, ''$x$'')]" "''plain text''",
              THEN conjunct2, THEN mp, OF h3]
  have "unmask_content (join_with ?cite ?ps1) [(?cite, ?o), (?math, ''$x$'')] =
          unmask_content (join_with ''$x$'' ?ps2) []"
    using T1 T2 by (simp only: j2)
  then have c1: "unmask_content ''a [MASK_MATH_0001] b [MASK_CMD_CITE_0000] c [MASK_MATH_0001].''
     [(?cite, ?o), (?math, ''$x$'')] = ''a $x$ b '' @ backslash # ''cite{k} c $x$.''"
    by (simp only: j1 j3 unmask_content.simps)
  show ?thesis
    by (intro conjI) (rule c1, rule T3)
qed

section \<open>Masking a single range\<close>

lemma sort_ranges_single: "sort_ranges [r] = [r]"
  by (simp add: sort_ranges_def)



section \<open>Classification of environments\<close>

lemma py_replace_delete_char: "py_replace s [c] [] = filter (\<lambda>x. x \<noteq> c) s"
  by (induction s) auto

lemma py_replace_map_char: "py_replace s [c] [d] = map (\<lambda>x. if x = c then d else x) s"
  by (induction s) auto

lemma opaque_names_star_free: "name \<in> OPAQUE_ENVS \<Longrightarrow> CHR ''*'' \<notin> set name"
  by (auto simp: OPAQUE_ENVS_def)



lemma code_names_not_opaque: "name \<in> CODE_ENVS \<Longrightarrow> \<not> env_is_opaque name"
proof -
  have "\<not> env_is_opaque ''lstlisting''" "\<not> env_is_opaque ''verbatim''"
    "\<not> env_is_opaque ''minted''"
    by (simp_all add: env_is_opaque_def OPAQUE_ENVS_def py_endswith_def suffix_to_prefix)
  then show "name \<in> CODE_ENVS \<Longrightarrow> \<not> env_is_opaque name"
    unfolding CODE_ENVS_def by blast
qed





section \<open>Worked examples and code environments\<close>

text \<open>
  C6, as amended. On the text \<open>The $E=mc^2$ law is due to \cite{einstein}.\<close>, parsed
  into a math node at 4..12 and a \<open>\cite\<close> macro node at 27..42, \<open>mask_content\<close>
  returns \<open>The [MASK_MATH_0001] law is due to [MASK_CMD_CITE_0000].\<close>: the counter is
  zero-padded to four digits and counts from 0 in the order of replacement, which is
  by descending start offset, so the last range of the text gets 0000. The table
  maps \<open>[MASK_CMD_CITE_0000]\<close> to \<open>\cite{einstein}\<close> and \<open>[MASK_MATH_0001]\<close> to
  \<open>$E=mc^2$\<close>, and unmasking gives back the original text.
\<close>

theorem einstein_masked_in_replacement_order:
  "mask_content einstein_text (Some einstein_nodes) =
     (''The [MASK_MATH_0001] law is due to [MASK_CMD_CITE_0000].'',
      [(''[MASK_CMD_CITE_0000]'', backslash # ''cite{einstein}''),
       (''[MASK_MATH_0001]'', ''$E=mc^2$'')])
   \<and> unmask_content ''The [MASK_MATH_0001] law is due to [MASK_CMD_CITE_0000].''
        [(''[MASK_CMD_CITE_0000]'', backslash # ''cite{einstein}''),
         (''[MASK_MATH_0001]'', ''$E=mc^2$'')] = einstein_text"
proof -
  have m: "mask_content einstein_text (Some einstein_nodes) =
     (''The [MASK_MATH_0001] law is due to [MASK_CMD_CITE_0000].'',
      [(''[MASK_CMD_CITE_0000]'', backslash # ''cite{einstein}''),
       (''[MASK_MATH_0001]'', ''$E=mc^2$'')])"
    by (simp add: einstein_text_def einstein_nodes_def masker_eval replicate_zeros)
  have u: "unmask_content ''The [MASK_MATH_0001] law is due to [MASK_CMD_CITE_0000].''
        [(''[MASK_CMD_CITE_0000]'', backslash # ''cite{einstein}''),
         (''[MASK_MATH_0001]'', ''$E=mc^2$'')] = einstein_text"
    by (simp add: einstein_text_def backslash_def)
  from m u show ?thesis by (rule conjI)
qed

text \<open>
  C6 as stated fails: the masked text is not the one with \<open>MATH_0000\<close> and
  \<open>CMD_CITE_0001\<close>.
\<close>

theorem einstein_not_in_document_order:
  "fst (mask_content einstein_text (Some einstein_nodes)) \<noteq>
     ''The [MASK_MATH_0000] law is due to [MASK_CMD_CITE_0001].''"
  by (simp add: einstein_text_def einstein_nodes_def masker_eval replicate_zeros)

text \<open>
  An environment named \<open>lstlisting\<close>, \<open>verbatim\<close> or \<open>minted\<close> with a non-empty
  node list: \<open>traverse_nodes\<close> emits exactly one range, from the start of the first
  child to the end of the last child, with the tag \<open>CODE_<NAME>\<close>, and the children
  are not visited. When this range lies in the text, \<open>mask_content\<close> replaces
  exactly it by one token; the text before and after the range is unchanged.
\<close>

theorem code_env_masks_inner_range:
  assumes code: "env_name \<in> CODE_ENVS" and children: "nodelist \<noteq> []"
    and start: "start = node_pos (hd nodelist)"
    and stop: "stop = node_pos (last nodelist) + node_len (last nodelist)"
    and range: "0 \<le> start" "start \<le> stop" "stop \<le> int (length text)"
  shows "traverse_nodes [LatexEnvironmentNode env_name pos len nodelist] =
           [(start, stop, ''CODE_'' @ py_upper env_name)]
       \<and> mask_content text (Some [LatexEnvironmentNode env_name pos len nodelist]) =
           (take (nat start) text @ mask_token (''CODE_'' @ py_upper env_name) 0
              @ drop (nat stop) text,
            [(mask_token (''CODE_'' @ py_upper env_name) 0,
              take (nat stop - nat start) (drop (nat start) text))])"
proof -
  have tr: "traverse_nodes [LatexEnvironmentNode env_name pos len nodelist] =
           [(start, stop, ''CODE_'' @ py_upper env_name)]"
    using code children code_names_not_opaque [OF code] by (simp add: start stop)
  have i1: "py_slice_index (length text) start = nat start"
    using range by (simp add: py_slice_index_def)
  have i2: "py_slice_index (length text) stop = nat stop"
    using range by (simp add: py_slice_index_def)
  have le: "nat start \<le> nat stop"
    using range by simp
  have loop: "replace_loop text [(start, stop, ''CODE_'' @ py_upper env_name)] (text, [], 0) =
          (take (nat start) text @ mask_token (''CODE_'' @ py_upper env_name) 0
              @ drop (nat stop) text,
           [(mask_token (''CODE_'' @ py_upper env_name) 0,
              take (nat stop - nat start) (drop (nat start) text))], 1)"
    using range le by (simp add: py_slice_def py_slice_assign_def i1 i2 max_absorb2 Let_def)
  have mc: "mask_content text (Some [LatexEnvironmentNode env_name pos len nodelist]) =
           (take (nat start) text @ mask_token (''CODE_'' @ py_upper env_name) 0
              @ drop (nat stop) text,
            [(mask_token (''CODE_'' @ py_upper env_name) 0,
              take (nat stop - nat start) (drop (nat start) text))])"
    by (simp only: mask_content_def option.case tr sort_ranges_single Let_def loop prod.case)
  from tr mc show ?thesis by (rule conjI)
qed

text \<open>
  The listing of the specification: only the inner \<open>print(1)\<close> line is masked.
\<close>

theorem code_env_masks_inner_range_witness:
  "''lstlisting'' \<in> CODE_ENVS \<and> [LatexCharsNode 35 10] \<noteq> [] \<and>
   (0::int) \<le> 35 \<and> (35::int) \<le> 45 \<and> 45 \<le> int (length listing_text) \<and>
   traverse_nodes listing_nodes = [(35, 45, ''CODE_LSTLISTING'')] \<and>
   mask_content listing_text (Some listing_nodes) =
     (backslash # ''begin{lstlisting}[language=Python][MASK_CODE_LSTLISTING_0000]''
        @ backslash # ''end{lstlisting}'',
      [(''[MASK_CODE_LSTLISTING_0000]'', nl # ''print(1)'' @ [nl])])"
proof -
  have code: "''lstlisting'' \<in> CODE_ENVS"
    by (simp add: CODE_ENVS_def)
  have children: "[LatexCharsNode 35 10] \<noteq> []"
    by simp
  have start: "(35::int) = node_pos (hd [LatexCharsNode 35 10])"
    by simp
  have stop: "(45::int) = node_pos (last [LatexCharsNode 35 10]) + node_len (last [LatexCharsNode 35 10])"
    by simp
  have r1: "(0::int) \<le> 35" and r2: "(35::int) \<le> 45"
    by simp_all
  have r3: "45 \<le> int (length listing_text)"
    by (simp add: listing_text_def)
  have up: "''CODE_'' @ py_upper ''lstlisting'' = ''CODE_LSTLISTING''"
    by (simp add: py_upper_def upper_char_def)
  have tok: "mask_token ''CODE_LSTLISTING'' 0 = ''[MASK_CODE_LSTLISTING_0000]''"
    by (simp add: mask_token_def py_format_04d_def digit_char_def replicate_zeros py_str_nat.simps)
  have before: "take (nat 35) listing_text = backslash # ''begin{lstlisting}[language=Python]''"
    by (simp add: listing_text_def)
  have after: "drop (nat 45) listing_text = backslash # ''end{lstlisting}''"
    by (simp add: listing_text_def)
  have inner: "take (nat 45 - nat 35) (drop (nat 35) listing_text) = nl # ''print(1)'' @ [nl]"
    by (simp add: listing_text_def)
  note T = code_env_masks_inner_range [OF code children start stop r1 r2 r3, of 0 61]
  have t1: "traverse_nodes listing_nodes = [(35, 45, ''CODE_LSTLISTING'')]"
    using T [THEN conjunct1] unfolding up listing_nodes_def .
  have t2: "mask_content listing_text (Some listing_nodes) =
     (backslash # ''begin{lstlisting}[language=Python][MASK_CODE_LSTLISTING_0000]''
        @ backslash # ''end{lstlisting}'',
      [(''[MASK_CODE_LSTLISTING_0000]'', nl # ''print(1)'' @ [nl])])"
    using T [THEN conjunct2] unfolding up tok before after inner listing_nodes_def by simp
  from code children r1 r2 r3 t1 t2 show ?thesis by (simp only: simp_thms)
qed

text \<open>
  C7. The specification says that for every code-content environment
  (\<open>lstlisting\<close>, \<open>verbatim\<close>, \<open>minted\<close>) the inner content is masked as a single
  \<open>CODE_<NAME>\<close> token. For \<open>verbatim\<close> the node list is empty, \<open>traverse_nodes\<close>
  takes the branch of the code environments, finds no child and emits nothing:
  \<open>mask_content\<close> returns the text unchanged with an empty table, and the body of
  the environment is not masked.
\<close>

theorem verbatim_content_not_masked:
  "traverse_nodes verbatim_nodes = [] \<and>
   mask_content verbatim_text (Some verbatim_nodes) = (verbatim_text, [])"
  by (simp add: verbatim_nodes_def mask_content_def sort_ranges_def CODE_ENVS_def
        env_is_opaque_def OPAQUE_ENVS_def py_endswith_def suffix_to_prefix)

section \<open>The mask ranges of a well-nested tree\<close>

lemma ranges_chain_widen:
  "ranges_chain lo hi rs \<Longrightarrow> lo' \<le> lo \<Longrightarrow> hi \<le> hi' \<Longrightarrow> ranges_chain lo' hi' rs"
  by (induction lo hi rs arbitrary: lo' rule: ranges_chain.induct) auto

lemma ranges_chain_append:
  "ranges_chain lo mid xs \<Longrightarrow> ranges_chain mid hi ys \<Longrightarrow> lo \<le> mid \<Longrightarrow> mid \<le> hi \<Longrightarrow>
     ranges_chain lo hi (xs @ ys)"
proof (induction lo mid xs rule: ranges_chain.induct)
  case (1 lo mid)
  from ranges_chain_widen [OF "1.prems"(2) "1.prems"(3)] show ?case by simp
next
  case (2 lo mid s e h rs)
  from "2.prems" have "ranges_chain e mid rs" "e \<le> mid" by simp_all
  from "2.IH" [OF this(1) "2.prems"(2) this(2) "2.prems"(4)] "2.prems"
  show ?case by simp
qed

lemma ranges_chain_after_node:
  "ranges_chain (p + l) hi rs \<Longrightarrow> lo \<le> p \<Longrightarrow> 0 < l \<Longrightarrow> ranges_chain lo hi rs"
  using ranges_chain_widen [of "p + l" hi rs lo hi] by simp

lemma well_nested_ends:
  "well_nested lo hi ns \<Longrightarrow> ns \<noteq> [] \<Longrightarrow>
     lo \<le> node_pos (hd ns) \<and> node_pos (hd ns) < node_pos (last ns) + node_len (last ns)
     \<and> node_pos (last ns) + node_len (last ns) \<le> hi"
proof (induction ns arbitrary: lo)
  case Nil
  then show ?case by simp
next
  case (Cons n ns)
  obtain p l where pl: "node_pos n = p" "node_len n = l" by simp
  from Cons.prems(1) have n: "lo \<le> p" "0 < l" "p + l \<le> hi"
    and rest: "well_nested (p + l) hi ns"
    using pl by (cases n; simp)+
  show ?case
  proof (cases "ns = []")
    case True
    with n pl show ?thesis by simp
  next
    case False
    from Cons.IH [OF rest False] n pl False show ?thesis by simp
  qed
qed

lemma traverse_nodes_chain:
  "well_nested lo hi ns \<Longrightarrow> ranges_chain lo hi (traverse_nodes ns)"
proof (induction ns arbitrary: lo hi rule: traverse_nodes.induct)
  case 1
  show ?case by simp
next
  case (2 pos len nodelist rest)
  from "2.prems" have n: "lo \<le> pos" "0 < len" "pos + len \<le> hi"
    and sib: "well_nested (pos + len) hi rest"
    by simp_all
  from "2.IH" [OF sib] n show ?case by simp
next
  case (3 macroname pos len rest)
  from "3.prems" have n: "lo \<le> pos" "0 < len" "pos + len \<le> hi"
    and sib: "well_nested (pos + len) hi rest"
    by simp_all
  show ?case
  proof (cases "macroname \<in> set MASKED_MACROS")
    case True
    from "3.IH"(1) [OF True sib] n True show ?thesis by simp
  next
    case False
    from ranges_chain_after_node [OF "3.IH"(2) [OF False sib] n(1) n(2)] False
    show ?thesis by simp
  qed
next
  case (4 env_name pos len nodelist rest)
  from "4.prems" have n: "lo \<le> pos" "0 < len" "pos + len \<le> hi"
    and kids: "well_nested pos (pos + len) nodelist"
    and sib: "well_nested (pos + len) hi rest"
    by simp_all
  show ?case
  proof (cases "env_is_opaque env_name")
    case True
    with "4.IH"(1) [OF True sib] n show ?thesis by simp
  next
    case op: False
    show ?thesis
    proof (cases "env_name \<in> CODE_ENVS")
      case code: True
      show ?thesis
      proof (cases "nodelist = []")
        case True
        from "4.IH"(3) [OF op code _ sib] True
        have "ranges_chain (pos + len) hi (traverse_nodes rest)" by simp
        from ranges_chain_after_node [OF this n(1) n(2)]
        have "ranges_chain lo hi (traverse_nodes rest)" .
        with op code True show ?thesis by simp
      next
        case False
        from well_nested_ends [OF kids False]
        have e: "pos \<le> node_pos (hd nodelist)"
          "node_pos (hd nodelist) < node_pos (last nodelist) + node_len (last nodelist)"
          "node_pos (last nodelist) + node_len (last nodelist) \<le> pos + len"
          by simp_all
        from "4.IH"(2) [OF op code False sib]
        have "ranges_chain (pos + len) hi (traverse_nodes rest)" .
        from ranges_chain_widen [OF this e(3)]
        have "ranges_chain (node_pos (last nodelist) + node_len (last nodelist)) hi
                     (traverse_nodes rest)" by simp
        with op code False e n show ?thesis by simp
      qed
    next
      case ncode: False
      from "4.IH"(4) [OF op ncode kids]
      have a: "ranges_chain pos (pos + len) (traverse_nodes nodelist)" .
      from "4.IH"(5) [OF op ncode sib]
      have b: "ranges_chain (pos + len) hi (traverse_nodes rest)" .
      from ranges_chain_append [OF a b] n
      have "ranges_chain pos hi (traverse_nodes nodelist @ traverse_nodes rest)" by simp
      from ranges_chain_widen [OF this n(1)]
      have "ranges_chain lo hi (traverse_nodes nodelist @ traverse_nodes rest)" by simp
      with op ncode show ?thesis by simp
    qed
  qed
next
  case (5 pos len nodelist rest)
  from "5.prems" have n: "lo \<le> pos" "0 < len" "pos + len \<le> hi"
    and kids: "well_nested pos (pos + len) nodelist"
    and sib: "well_nested (pos + len) hi rest"
    by simp_all
  from ranges_chain_append [OF "5.IH"(1) [OF kids] "5.IH"(2) [OF sib]] n
  have "ranges_chain pos hi (traverse_nodes nodelist @ traverse_nodes rest)" by simp
  from ranges_chain_widen [OF this n(1)]
  have "ranges_chain lo hi (traverse_nodes nodelist @ traverse_nodes rest)" by simp
  then show ?case by simp
next
  case (6 pos len rest)
  from "6.prems" have n: "lo \<le> pos" "0 < len" "pos + len \<le> hi"
    and sib: "well_nested (pos + len) hi rest"
    by simp_all
  from ranges_chain_after_node [OF "6.IH" [OF sib] n(1) n(2)]
  show ?case by simp
next
  case (7 pos len rest)
  from "7.prems" have n: "lo \<le> pos" "0 < len" "pos + len \<le> hi"
    and sib: "well_nested (pos + len) hi rest"
    by simp_all
  from ranges_chain_after_node [OF "7.IH" [OF sib] n(1) n(2)]
  show ?case by simp
next
  case (8 pos len rest)
  from "8.prems" have n: "lo \<le> pos" "0 < len" "pos + len \<le> hi"
    and sib: "well_nested (pos + len) hi rest"
    by simp_all
  from ranges_chain_after_node [OF "8.IH" [OF sib] n(1) n(2)]
  show ?case by simp
qed

lemma ranges_chain_bounds:
  "ranges_chain lo hi rs \<Longrightarrow> r \<in> set rs \<Longrightarrow>
     lo \<le> fst r \<and> fst r < fst (snd r) \<and> fst (snd r) \<le> hi"
proof (induction lo hi rs rule: ranges_chain.induct)
  case (1 lo hi)
  then show ?case by simp
next
  case (2 lo hi s e h rs)
  show ?case
  proof (cases "r = (s, e, h)")
    case True
    with "2.prems" show ?thesis by simp
  next
    case False
    with "2.prems" have "ranges_chain e hi rs" "r \<in> set rs" by simp_all
    from "2.IH" [OF this] "2.prems"(1) show ?thesis by simp
  qed
qed

lemma ranges_chain_sorted:
  "ranges_chain lo hi rs \<Longrightarrow> sorted_wrt (\<lambda>a b. fst (snd a) \<le> fst b) rs"
proof (induction lo hi rs rule: ranges_chain.induct)
  case (1 lo hi)
  show ?case by simp
next
  case (2 lo hi s e h rs)
  from "2.prems" have c: "ranges_chain e hi rs" by simp
  have "e \<le> fst b" if "b \<in> set rs" for b
    using ranges_chain_bounds [OF c that] by simp
  with "2.IH" [OF c] show ?case by simp
qed

lemma insort_key_last:
  fixes f :: "'a \<Rightarrow> int"
  shows "(\<And>y. y \<in> set ys \<Longrightarrow> f y < f x) \<Longrightarrow> insort_key f x ys = ys @ [x]"
proof (induction ys)
  case Nil
  show ?case by simp
next
  case (Cons a ys)
  have "f a < f x" by (rule Cons.prems) simp
  then have n: "\<not> f x \<le> f a" by simp
  have "insort_key f x ys = ys @ [x]"
    by (rule Cons.IH) (simp add: Cons.prems)
  with n show ?case by simp
qed

lemma sort_ranges_chain:
  "ranges_chain lo hi rs \<Longrightarrow> sort_ranges rs = rev rs"
proof (induction lo hi rs rule: ranges_chain.induct)
  case (1 lo hi)
  show ?case by (simp add: sort_ranges_def)
next
  case (2 lo hi s e h rs)
  from "2.prems" have c: "ranges_chain e hi rs" and se: "s < e" by simp_all
  from "2.IH" [OF c] have ih: "sort_key (\<lambda>r. - fst r) rs = rev rs"
    by (simp add: sort_ranges_def)
  have "- fst y < - fst (s, e, h)" if "y \<in> set (rev rs)" for y
    using ranges_chain_bounds [OF c, of y] that se by simp
  from insort_key_last [of "rev rs" "\<lambda>r. - fst r" "(s, e, h)", OF this]
  show ?case by (simp add: sort_ranges_def ih)
qed

lemma ranges_disjoint_sym: "ranges_disjoint a b = ranges_disjoint b a"
  by (auto simp: ranges_disjoint_def)

text \<open>
  C5. When the node tree is well nested in the text, the mask ranges collected by
  one call of \<open>mask_content\<close> (the list \<open>mask_ranges\<close> after sorting) are pairwise
  non-overlapping, and every one of them is non-empty and lies within \<open>[0,
  len(text)]\<close>, so that none is skipped by the bounds check. This holds because a
  range is emitted for a node only where the traversal does not descend into it.
\<close>

theorem mask_ranges_disjoint_in_text:
  assumes "well_nested 0 (int (length text)) nodes"
  shows "(\<forall>i j. i < j \<and> j < length (sort_ranges (traverse_nodes nodes)) \<longrightarrow>
            ranges_disjoint (sort_ranges (traverse_nodes nodes) ! i)
                            (sort_ranges (traverse_nodes nodes) ! j))
       \<and> (\<forall>r \<in> set (sort_ranges (traverse_nodes nodes)).
            0 \<le> fst r \<and> fst r < fst (snd r) \<and> fst (snd r) \<le> int (length text))"
proof -
  let ?rs = "traverse_nodes nodes"
  have c: "ranges_chain 0 (int (length text)) ?rs"
    using assms by (rule traverse_nodes_chain)
  have s: "sort_ranges ?rs = rev ?rs"
    using c by (rule sort_ranges_chain)
  have "sorted_wrt (\<lambda>a b. fst (snd a) \<le> fst b) ?rs"
    using c by (rule ranges_chain_sorted)
  then have rs: "sorted_wrt (\<lambda>a b. fst (snd b) \<le> fst a) (rev ?rs)"
    by (simp add: sorted_wrt_rev)
  have d: "ranges_disjoint (rev ?rs ! i) (rev ?rs ! j)"
    if "i < j" "j < length (rev ?rs)" for i j
    using sorted_wrt_nth_less [OF rs that] by (simp add: ranges_disjoint_def)
  have b: "0 \<le> fst r \<and> fst r < fst (snd r) \<and> fst (snd r) \<le> int (length text)"
    if "r \<in> set (rev ?rs)" for r
    using ranges_chain_bounds [OF c, of r] that by simp
  from d b show ?thesis unfolding s by blast
qed

theorem mask_ranges_disjoint_in_text_witness:
  "well_nested 0 (int (length einstein_text)) einstein_nodes \<and>
   sort_ranges (traverse_nodes einstein_nodes) = [(27, 42, ''CMD_CITE''), (4, 12, ''MATH'')] \<and>
   ranges_disjoint (27, 42, ''CMD_CITE'') (4, 12, ''MATH'')"
proof -
  have w: "well_nested 0 (int (length einstein_text)) einstein_nodes"
    by (simp add: einstein_text_def einstein_nodes_def)
  have s: "sort_ranges (traverse_nodes einstein_nodes) =
             [(27, 42, ''CMD_CITE''), (4, 12, ''MATH'')]"
    by (simp add: einstein_nodes_def sort_ranges_def MASKED_MACROS_def py_upper_def upper_char_def)
  from mask_ranges_disjoint_in_text [OF w, THEN conjunct1, rule_format, of 0 1]
  have "ranges_disjoint (27, 42, ''CMD_CITE'') (4, 12, ''MATH'')"
    unfolding s by simp
  with w s show ?thesis by (intro conjI)
qed

section \<open>The round trip of masking and unmasking\<close>

subsection \<open>Counters and tokens\<close>

lemma digit_char_in_digits: "d < 10 \<Longrightarrow> digit_char d \<in> set ''0123456789''"
  unfolding digit_char_def by (rule nth_mem) simp

lemma digit_val_digit_char: "d < 10 \<Longrightarrow> digit_val (digit_char d) = d"
proof -
  assume "d < 10"
  then have "d = 0 \<or> d = 1 \<or> d = 2 \<or> d = 3 \<or> d = 4 \<or> d = 5 \<or> d = 6 \<or> d = 7
               \<or> d = 8 \<or> d = 9"
    by arith
  then show ?thesis
    by (elim disjE) (simp_all add: digit_val_def digit_char_def)
qed

lemma py_str_nat_digits: "set (py_str_nat n) \<subseteq> set ''0123456789''"
proof (induction n rule: py_str_nat.induct)
  case (1 n)
  show ?case
  proof (cases "n < 10")
    case True
    with digit_char_in_digits [OF True] show ?thesis
      by (subst py_str_nat.simps) simp
  next
    case False
    have "n mod 10 < 10" by simp
    from digit_char_in_digits [OF this] "1.IH" [OF False] False show ?thesis
      by (subst py_str_nat.simps) simp
  qed
qed

lemma str_val_append: "str_val (s @ [c]) = 10 * str_val s + digit_val c"
  by (simp add: str_val_def)

lemma str_val_py_str_nat: "str_val (py_str_nat n) = n"
proof (induction n rule: py_str_nat.induct)
  case (1 n)
  show ?case
  proof (cases "n < 10")
    case True
    have "py_str_nat n = [digit_char n]"
      using True by (subst py_str_nat.simps) simp
    then show ?thesis
      using digit_val_digit_char [OF True] by (simp add: str_val_def)
  next
    case False
    have m: "n mod 10 < 10" by simp
    have "py_str_nat n = py_str_nat (n div 10) @ [digit_char (n mod 10)]"
      using False by (subst py_str_nat.simps) simp
    then have "str_val (py_str_nat n) = 10 * str_val (py_str_nat (n div 10)) + n mod 10"
      by (simp add: str_val_append digit_val_digit_char [OF m])
    with "1.IH" [OF False] show ?thesis by simp
  qed
qed

lemma str_val_zeros: "str_val (replicate k (CHR ''0'') @ s) = str_val s"
proof -
  have "foldl (\<lambda>a c. 10 * a + digit_val c) 0 (replicate k (CHR ''0'')) = 0"
    by (induction k) (simp_all add: digit_val_def)
  then show ?thesis by (simp add: str_val_def)
qed

lemma str_val_format: "str_val (py_format_04d n) = n"
  by (simp add: py_format_04d_def Let_def str_val_zeros str_val_py_str_nat)

lemma py_format_04d_inj:
  assumes eq: "py_format_04d m = py_format_04d n"
  shows "m = n"
proof -
  have "m = str_val (py_format_04d m)" by (simp only: str_val_format)
  also have "\<dots> = str_val (py_format_04d n)" by (simp only: eq)
  also have "\<dots> = n" by (rule str_val_format)
  finally show ?thesis .
qed

lemma py_format_04d_digits: "set (py_format_04d n) \<subseteq> set ''0123456789''"
  using py_str_nat_digits [of n] by (auto simp: py_format_04d_def Let_def)

lemma digit_not_special:
  "c \<in> set ''0123456789'' \<Longrightarrow> c \<noteq> CHR ''_'' \<and> c \<noteq> CHR ''['' \<and> c \<noteq> CHR '']''"
  by auto

lemma takeWhile_stop:
  "(\<And>x. x \<in> set xs \<Longrightarrow> P x) \<Longrightarrow> \<not> P y \<Longrightarrow> takeWhile P (xs @ y # ys) = xs"
  by (simp add: takeWhile_append2)

lemma token_body_rev:
  fixes h d h' d' :: string
  assumes eq: "''[MASK_'' @ h @ ''_'' @ d @ '']'' = ''[MASK_'' @ h' @ ''_'' @ d' @ '']''"
  shows "rev d @ CHR ''_'' # rev h = rev d' @ CHR ''_'' # rev h'"
proof -
  from eq have "h @ ''_'' @ d @ '']'' = h' @ ''_'' @ d' @ '']''"
    by (simp only: same_append_eq)
  then have "(h @ ''_'' @ d) @ '']'' = (h' @ ''_'' @ d') @ '']''"
    by (simp only: append_assoc)
  then have r0: "h @ ''_'' @ d = h' @ ''_'' @ d'"
    by (rule append_same_eq [THEN iffD1])
  show ?thesis
    using arg_cong [OF r0, of rev]
    by (simp only: rev_append rev.simps append.simps append_assoc)
qed

lemma format_digit_plain:
  assumes "x \<in> set (py_format_04d n)"
  shows "x \<noteq> CHR ''_'' \<and> x \<noteq> CHR ''['' \<and> x \<noteq> CHR '']''"
proof -
  from assms py_format_04d_digits [of n] have "x \<in> set ''0123456789''"
    by (rule subsetD [rotated])
  then show ?thesis by (rule digit_not_special)
qed


lemma mask_token_counter_inj:
  assumes eq: "mask_token h c = mask_token h' c'"
  shows "c = c'"
proof -
  let ?d = "py_format_04d c" and ?d' = "py_format_04d c'"
  have e: "''[MASK_'' @ h @ ''_'' @ ?d @ '']'' = ''[MASK_'' @ h' @ ''_'' @ ?d' @ '']''"
    using eq by (simp only: mask_token_def)
  have r: "rev ?d @ CHR ''_'' # rev h = rev ?d' @ CHR ''_'' # rev h'"
    using e by (rule token_body_rev)
  have p: "x \<noteq> CHR ''_''" if "x \<in> set (rev (py_format_04d n))" for x n
  proof -
    from that have "x \<in> set (py_format_04d n)" by (simp only: set_rev)
    then show ?thesis by (rule format_digit_plain [THEN conjunct1])
  qed
  have n: "\<not> CHR ''_'' \<noteq> CHR ''_''" by simp
  have "takeWhile (\<lambda>x. x \<noteq> CHR ''_'') (rev ?d @ CHR ''_'' # rev h) = rev ?d"
    using p n by (rule takeWhile_stop)
  moreover have "takeWhile (\<lambda>x. x \<noteq> CHR ''_'') (rev ?d' @ CHR ''_'' # rev h') = rev ?d'"
    using p n by (rule takeWhile_stop)
  ultimately have "rev ?d = rev ?d'"
    by (simp only: r)
  then have "?d = ?d'" by (simp only: rev_is_rev_conv)
  then show ?thesis by (rule py_format_04d_inj)
qed

lemma mask_token_is_mask_token:
  assumes "hint_ok h"
  shows "is_mask_token (mask_token h c)"
proof -
  let ?b = "h @ ''_'' @ py_format_04d c"
  have d: "x \<noteq> CHR ''['' \<and> x \<noteq> CHR '']''" if "x \<in> set (py_format_04d c)" for x
    using format_digit_plain [OF that] by (rule conjunct2)
  have "CHR ''['' \<notin> set ?b \<and> CHR '']'' \<notin> set ?b"
    using assms d by (auto simp: hint_ok_def)
  moreover have "mask_token h c = ''[MASK_'' @ ?b @ '']''"
    by (simp add: mask_token_def)
  ultimately show ?thesis
    unfolding is_mask_token_def by (intro exI [of _ ?b] conjI) simp_all
qed

lemma is_mask_token_shape:
  assumes "is_mask_token t"
  shows "t \<noteq> []" "hd t = CHR ''[''" "CHR ''['' \<notin> set (tl t)" "prefix ''[MASK_'' t"
proof -
  from assms obtain b where t: "t = ''[MASK_'' @ b @ '']''"
    and b: "CHR ''['' \<notin> set b" "CHR '']'' \<notin> set b"
    unfolding is_mask_token_def by (elim exE conjE)
  show "t \<noteq> []" "hd t = CHR ''[''" "prefix ''[MASK_'' t"
    by (simp_all add: t)
  show "CHR ''['' \<notin> set (tl t)"
    using b by (simp add: t)
qed

lemma mask_tokens_prefix_eq:
  assumes t: "is_mask_token t" and u: "is_mask_token u" and pre: "prefix t (u @ r)"
  shows "t = u"
proof -
  from t obtain b where tb: "t = ''[MASK_'' @ b @ '']''" and b: "CHR '']'' \<notin> set b"
    unfolding is_mask_token_def by (elim exE conjE)
  from u obtain b' where ub: "u = ''[MASK_'' @ b' @ '']''" and b': "CHR '']'' \<notin> set b'"
    unfolding is_mask_token_def by (elim exE conjE)
  from pre obtain z where "u @ r = t @ z"
    unfolding prefix_def by (elim exE)
  then have e: "b' @ CHR '']'' # r = b @ CHR '']'' # z"
    by (simp add: tb ub)
  have n: "\<not> CHR '']'' \<noteq> CHR '']''" by simp
  have pb: "x \<noteq> CHR '']''" if "x \<in> set b" for x using that b by (cases "x = CHR '']''") simp_all
  have pb': "x \<noteq> CHR '']''" if "x \<in> set b'" for x using that b' by (cases "x = CHR '']''") simp_all
  have "takeWhile (\<lambda>x. x \<noteq> CHR '']'') (b' @ CHR '']'' # r) = b'"
    using pb' n by (rule takeWhile_stop)
  moreover have "takeWhile (\<lambda>x. x \<noteq> CHR '']'') (b @ CHR '']'' # z) = b"
    using pb n by (rule takeWhile_stop)
  ultimately have "b' = b" by (simp only: e)
  then show ?thesis by (simp only: tb ub)
qed

lemma prefix_straddle:
  assumes pre: "prefix p (d @ x # xs)" and d: "d \<noteq> []" and x: "x \<notin> set (tl p)"
  shows "prefix p d"
proof -
  from pre have "prefix p d \<or> (\<exists>us. p = d @ us \<and> prefix us (x # xs))"
    by (simp only: prefix_append)
  then show ?thesis
  proof
    assume "prefix p d"
    then show ?thesis .
  next
    assume "\<exists>us. p = d @ us \<and> prefix us (x # xs)"
    then obtain us where p: "p = d @ us" and us: "prefix us (x # xs)" by (elim exE conjE)
    show ?thesis
    proof (cases us)
      case Nil
      with p show ?thesis by simp
    next
      case (Cons u us')
      with us have "u = x" by simp
      with p Cons d have "x \<in> set (tl p)"
        by (cases d) simp_all
      with x show ?thesis by simp
    qed
  qed
qed

subsection \<open>Replacement passes over what is not the token\<close>

lemma mask_token_absent:
  assumes nomask: "\<not> sublist ''[MASK_'' text" and y: "sublist y text"
    and tok: "is_mask_token tok"
  shows "\<not> py_in tok y"
proof
  assume "py_in tok y"
  then have "sublist tok y" by (simp only: py_in_iff_sublist)
  moreover have "sublist ''[MASK_'' tok"
    using is_mask_token_shape(4) [OF tok] by (rule prefix_imp_sublist)
  ultimately have "sublist ''[MASK_'' y"
    by (rule sublist_order.order_trans [rotated])
  then have "sublist ''[MASK_'' text"
    using y by (rule sublist_order.order_trans)
  with nomask show False ..
qed

lemma py_replace_over_literal:
  assumes nomask: "\<not> sublist ''[MASK_'' text" and lit: "sublist l text"
    and tok: "is_mask_token tok" and x: "x = [] \<or> hd x = CHR ''[''"
  shows "py_replace (l @ x) tok new = l @ py_replace x tok new"
proof -
  have ne: "tok \<noteq> []" using tok by (rule is_mask_token_shape(1))
  have "\<not> prefix tok (drop i (l @ x))" if i: "i < length l" for i
  proof
    assume pre: "prefix tok (drop i (l @ x))"
    let ?d = "drop i l"
    have d: "?d \<noteq> []" using i by simp
    have "drop i (l @ x) = ?d @ x" using i by simp
    with pre have "prefix tok (?d @ x)" by (simp only:)
    with is_mask_token_shape(4) [OF tok] have m: "prefix ''[MASK_'' (?d @ x)"
      by (rule prefix_order.order_trans)
    have "prefix ''[MASK_'' ?d"
    proof (cases x)
      case Nil
      with m show ?thesis by simp
    next
      case (Cons c cs)
      with x have c: "c = CHR ''[''" by simp
      have "CHR ''['' \<notin> set (tl ''[MASK_'')" by simp
      with m d show ?thesis
        unfolding Cons c by (rule prefix_straddle)
    qed
    then have "sublist ''[MASK_'' ?d" by (rule prefix_imp_sublist)
    then have "sublist ''[MASK_'' l"
      by (rule sublist_order.order_trans [OF _ sublist_drop])
    then have "sublist ''[MASK_'' text"
      using lit by (rule sublist_order.order_trans)
    with nomask show False ..
  qed
  from py_replace_pass [where a = l and x = x and old = tok and new = new, OF ne this]
  show ?thesis .
qed

lemma py_replace_over_token:
  assumes u: "is_mask_token u" and tok: "is_mask_token tok" and diff: "u \<noteq> tok"
  shows "py_replace (u @ r) tok new = u @ py_replace r tok new"
proof -
  have ne: "tok \<noteq> []" using tok by (rule is_mask_token_shape(1))
  have "\<not> prefix tok (drop i (u @ r))" if i: "i < length u" for i
  proof (cases i)
    case 0
    show ?thesis
    proof
      assume "prefix tok (drop i (u @ r))"
      then have "prefix tok (u @ r)" by (simp add: 0)
      with tok u have "tok = u" by (rule mask_tokens_prefix_eq)
      with diff show False by simp
    qed
  next
    case (Suc j)
    have j: "j < length (tl u)" using i Suc by simp
    have "drop i (u @ r) = drop i u @ r" using i by simp
    also have "drop i u = u ! i # drop (Suc i) u"
      using i by (simp only: Cons_nth_drop_Suc)
    finally have dr: "drop i (u @ r) = u ! i # drop (Suc i) u @ r" by simp
    have "u ! i = tl u ! j"
      using i Suc by (simp add: nth_tl)
    with j have "u ! i \<in> set (tl u)" by simp
    with is_mask_token_shape(3) [OF u] have nb: "u ! i \<noteq> CHR ''[''"
      by (cases "u ! i = CHR ''[''") simp_all
    show ?thesis
    proof
      assume pre: "prefix tok (drop i (u @ r))"
      from ne obtain a as where ta: "tok = a # as" by (cases tok) simp_all
      with is_mask_token_shape(2) [OF tok] have "a = CHR ''[''" by simp
      from pre have "prefix (a # as) (u ! i # drop (Suc i) u @ r)"
        by (simp only: dr ta)
      then have "a = u ! i" by simp
      with \<open>a = CHR ''[''\<close> nb show False by simp
    qed
  qed
  from py_replace_pass [where a = u and x = r and old = tok and new = new, OF ne this]
  show ?thesis .
qed

subsection \<open>Undoing the last replacement\<close>

lemma text_glue:
  assumes "pos \<le> s" and "s \<le> e"
  shows "take (s - pos) (drop pos text) @ take (e - s) (drop s text) @ drop e text
           = drop pos text"
proof -
  have a: "drop (s - pos) (drop pos text) = drop s text"
    using assms(1) by simp
  have b: "drop (e - s) (drop s text) = drop e text"
    using assms(2) by simp
  have "take (e - s) (drop s text) @ drop e text = drop s text"
    using append_take_drop_id [of "e - s" "drop s text"] by (simp only: b)
  then have "take (s - pos) (drop pos text) @ take (e - s) (drop s text) @ drop e text
      = take (s - pos) (drop pos text) @ drop (s - pos) (drop pos text)"
    by (simp only: a)
  then show ?thesis by (simp only: append_take_drop_id)
qed

lemma sublist_take_drop: "sublist (take n (drop m text)) text"
proof -
  have "sublist (take n (drop m text)) (drop m text)" by (rule sublist_take)
  then show ?thesis by (rule sublist_order.order_trans [OF _ sublist_drop])
qed

lemma render_replace_last:
  assumes nomask: "\<not> sublist ''[MASK_'' text" and tok: "is_mask_token tok"
    and se: "s \<le> e"
  shows "pos \<le> s \<Longrightarrow>
     \<forall>it \<in> set items. is_mask_token (snd (snd it)) \<and> snd (snd it) \<noteq> tok
        \<and> fst (snd it) \<le> s \<Longrightarrow>
     py_replace (render text pos (items @ [(s, e, tok)])) tok (take (e - s) (drop s text))
       = render text pos items"
proof (induction items arbitrary: pos)
  case Nil
  let ?new = "take (e - s) (drop s text)"
  have ne: "tok \<noteq> []" using tok by (rule is_mask_token_shape(1))
  have hd: "tok @ drop e text = [] \<or> hd (tok @ drop e text) = CHR ''[''"
    using ne is_mask_token_shape(2) [OF tok] by simp
  have tail: "py_replace (drop e text) tok ?new = drop e text"
    by (rule py_replace_absent, rule mask_token_absent [OF nomask sublist_drop tok])
  have "py_replace (take (s - pos) (drop pos text) @ tok @ drop e text) tok ?new
      = take (s - pos) (drop pos text) @ py_replace (tok @ drop e text) tok ?new"
    by (rule py_replace_over_literal [OF nomask sublist_take_drop tok hd])
  also have "py_replace (tok @ drop e text) tok ?new = ?new @ py_replace (drop e text) tok ?new"
    by (rule py_replace_at_occurrence [OF ne])
  finally have "py_replace (take (s - pos) (drop pos text) @ tok @ drop e text) tok ?new
      = take (s - pos) (drop pos text) @ ?new @ drop e text"
    by (simp only: tail)
  also have "\<dots> = drop pos text"
    using Nil.prems(1) se by (rule text_glue)
  finally show ?case by simp
next
  case (Cons it items)
  obtain s1 e1 t1 where it: "it = (s1, e1, t1)" by (cases it)
  let ?new = "take (e - s) (drop s text)"
  let ?R = "render text e1 (items @ [(s, e, tok)])"
  from Cons.prems(2) have t1: "is_mask_token t1" and diff: "t1 \<noteq> tok" and e1: "e1 \<le> s"
    by (simp_all add: it)
  from Cons.prems(2) have rest: "\<forall>it \<in> set items. is_mask_token (snd (snd it))
      \<and> snd (snd it) \<noteq> tok \<and> fst (snd it) \<le> s"
    by simp
  have ne1: "t1 \<noteq> []" using t1 by (rule is_mask_token_shape(1))
  have hd: "t1 @ ?R = [] \<or> hd (t1 @ ?R) = CHR ''[''"
    using ne1 is_mask_token_shape(2) [OF t1] by simp
  have ih: "py_replace ?R tok ?new = render text e1 items"
    using e1 rest by (rule Cons.IH)
  have "py_replace (take (s1 - pos) (drop pos text) @ t1 @ ?R) tok ?new
      = take (s1 - pos) (drop pos text) @ py_replace (t1 @ ?R) tok ?new"
    by (rule py_replace_over_literal [OF nomask sublist_take_drop tok hd])
  also have "py_replace (t1 @ ?R) tok ?new = t1 @ py_replace ?R tok ?new"
    using t1 tok diff by (rule py_replace_over_token)
  finally have "py_replace (take (s1 - pos) (drop pos text) @ t1 @ ?R) tok ?new
      = take (s1 - pos) (drop pos text) @ t1 @ render text e1 items"
    by (simp only: ih)
  then show ?case by (simp add: it)
qed

subsection \<open>Unmasking what the replacements produce\<close>

lemma tok_items_snoc:
  "tok_items c (rs @ [(s, e, h)]) = tok_items (Suc c) rs @ [(nat s, nat e, mask_token h c)]"
  by (induction rs) auto

lemma table_of_snoc:
  "table_of text (items @ [(s, e, tok)]) = (tok, take (e - s) (drop s text)) # table_of text items"
  by (induction items) auto

lemma tok_items_mem:
  "it \<in> set (tok_items c rs) \<Longrightarrow>
     \<exists>r \<in> set rs. \<exists>n. c \<le> n \<and> n < c + length rs
        \<and> it = (nat (fst r), nat (fst (snd r)), mask_token (snd (snd r)) n)"
proof (induction rs)
  case Nil
  then show ?case by simp
next
  case (Cons r rs)
  obtain s e h where r: "r = (s, e, h)" by (cases r)
  from Cons.prems have "it = (nat s, nat e, mask_token h (c + length rs))
      \<or> it \<in> set (tok_items c rs)"
    by (simp add: r)
  then show ?case
  proof
    assume "it = (nat s, nat e, mask_token h (c + length rs))"
    then have "c \<le> c + length rs \<and> c + length rs < c + length (r # rs)
        \<and> it = (nat (fst r), nat (fst (snd r)), mask_token (snd (snd r)) (c + length rs))"
      by (simp add: r)
    then show ?thesis by (intro bexI [where x = r] exI [where x = "c + length rs"]) simp_all
  next
    assume "it \<in> set (tok_items c rs)"
    from Cons.IH [OF this] obtain r' n where r': "r' \<in> set rs"
      and n: "c \<le> n" "n < c + length rs"
      and it: "it = (nat (fst r'), nat (fst (snd r')), mask_token (snd (snd r')) n)"
      by (elim bexE exE conjE)
    have "c \<le> n \<and> n < c + length (r # rs)
        \<and> it = (nat (fst r'), nat (fst (snd r')), mask_token (snd (snd r')) n)"
      using n it by simp
    then show ?thesis using r' by (intro bexI [where x = r'] exI [where x = n]) simp_all
  qed
qed

lemma ranges_chain_snoc:
  "ranges_chain lo hi (rs @ [(s, e, h)]) \<Longrightarrow>
     ranges_chain lo hi rs \<and> lo \<le> s \<and> s < e \<and> e \<le> hi \<and> (\<forall>r \<in> set rs. fst (snd r) \<le> s)"
proof (induction lo hi rs rule: ranges_chain.induct)
  case (1 lo hi)
  then show ?case by simp
next
  case (2 lo hi s1 e1 h1 rs)
  from "2.prems" have a: "lo \<le> s1" "s1 < e1" "e1 \<le> hi"
    and c: "ranges_chain e1 hi (rs @ [(s, e, h)])"
    by simp_all
  from "2.IH" [OF c] have ih: "ranges_chain e1 hi rs" "e1 \<le> s" "s < e" "e \<le> hi"
    "\<forall>r \<in> set rs. fst (snd r) \<le> s"
    by simp_all
  show ?case using a ih by simp
qed

lemma unmask_render:
  assumes nomask: "\<not> sublist ''[MASK_'' text"
  shows "ranges_chain 0 (int (length text)) rs \<Longrightarrow> \<forall>r \<in> set rs. hint_ok (snd (snd r)) \<Longrightarrow>
     unmask_content (render text 0 (tok_items c rs)) (table_of text (tok_items c rs)) = text"
proof (induction rs arbitrary: c rule: rev_induct)
  case Nil
  show ?case by simp
next
  case (snoc r rs)
  obtain s e h where r: "r = (s, e, h)" by (cases r)
  let ?tok = "mask_token h c"
  let ?items = "tok_items (Suc c) rs"
  from snoc.prems(1) have ch: "ranges_chain 0 (int (length text)) (rs @ [(s, e, h)])"
    by (simp only: r)
  from ranges_chain_snoc [OF ch] have chain: "ranges_chain 0 (int (length text)) rs"
    and pos: "0 \<le> s" "s < e" "e \<le> int (length text)"
    and before: "\<forall>r \<in> set rs. fst (snd r) \<le> s"
    by simp_all
  from snoc.prems(2) have h: "hint_ok h" and hs: "\<forall>r \<in> set rs. hint_ok (snd (snd r))"
    by (simp_all add: r)
  have tok: "is_mask_token ?tok" using h by (rule mask_token_is_mask_token)
  have others: "\<forall>it \<in> set ?items. is_mask_token (snd (snd it)) \<and> snd (snd it) \<noteq> ?tok
      \<and> fst (snd it) \<le> nat s"
  proof
    fix it assume "it \<in> set ?items"
    from tok_items_mem [OF this] obtain r' n where r': "r' \<in> set rs"
      and n: "Suc c \<le> n"
      and it: "it = (nat (fst r'), nat (fst (snd r')), mask_token (snd (snd r')) n)"
      by (elim bexE exE conjE)
    from hs r' have "hint_ok (snd (snd r'))" by (rule bspec)
    then have a: "is_mask_token (mask_token (snd (snd r')) n)"
      by (rule mask_token_is_mask_token)
    have b: "mask_token (snd (snd r')) n \<noteq> ?tok"
    proof
      assume "mask_token (snd (snd r')) n = ?tok"
      then have "n = c" by (rule mask_token_counter_inj)
      with n show False by simp
    qed
    from before r' have "fst (snd r') \<le> s" by (rule bspec)
    then have d: "nat (fst (snd r')) \<le> nat s" by simp
    show "is_mask_token (snd (snd it)) \<and> snd (snd it) \<noteq> ?tok \<and> fst (snd it) \<le> nat s"
      using a b d by (simp add: it)
  qed
  have se: "nat s \<le> nat e" using pos by simp
  have k: "py_replace (render text 0 (?items @ [(nat s, nat e, ?tok)])) ?tok
             (take (nat e - nat s) (drop (nat s) text)) = render text 0 ?items"
    using le0 others by (rule render_replace_last [OF nomask tok se])
  have ih: "unmask_content (render text 0 ?items) (table_of text ?items) = text"
    using chain hs by (rule snoc.IH)
  have "unmask_content (render text 0 (?items @ [(nat s, nat e, ?tok)]))
          ((?tok, take (nat e - nat s) (drop (nat s) text)) # table_of text ?items) = text"
    by (simp only: unmask_content.simps k ih)
  then show ?case by (simp only: r tok_items_snoc table_of_snoc)
qed

subsection \<open>What the replacement loop computes\<close>

lemma replace_loop_append:
  "replace_loop t (xs @ ys) st = replace_loop t ys (replace_loop t xs st)"
  by (induction t xs st rule: replace_loop.induct) (simp_all add: Let_def)

lemma dict_set_new: "k \<notin> fst ` set d \<Longrightarrow> dict_set d k v = d @ [(k, v)]"
  by (induction d) auto

lemma table_of_keys: "map fst (table_of text items) = rev (map (\<lambda>it. snd (snd it)) items)"
  by (induction items) auto

lemma render_split:
  "pos \<le> p \<Longrightarrow> \<forall>it \<in> set items. p \<le> fst it \<Longrightarrow>
     render text pos items = take (p - pos) (drop pos text) @ render text p items"
proof (cases items)
  case Nil
  assume "pos \<le> p"
  then have "drop (p - pos) (drop pos text) = drop p text" by simp
  then have "drop pos text = take (p - pos) (drop pos text) @ drop p text"
    using append_take_drop_id [of "p - pos" "drop pos text"] by simp
  then show ?thesis by (simp add: Nil)
next
  case (Cons it rest)
  assume pp: "pos \<le> p" and all: "\<forall>it \<in> set items. p \<le> fst it"
  obtain s e tok where it: "it = (s, e, tok)" by (cases it)
  from all have ps: "p \<le> s" by (simp add: Cons it)
  have "take (p - pos + (s - p)) (drop pos text)
      = take (p - pos) (drop pos text) @ take (s - p) (drop (p - pos) (drop pos text))"
    by (rule take_add)
  moreover have "p - pos + (s - p) = s - pos" using pp ps by simp
  moreover have "drop (p - pos) (drop pos text) = drop p text" using pp by simp
  ultimately have "take (s - pos) (drop pos text)
      = take (p - pos) (drop pos text) @ take (s - p) (drop p text)"
    by (simp only:)
  then show ?thesis by (simp add: Cons it)
qed

lemma py_slice_in_range:
  "0 \<le> s \<Longrightarrow> s \<le> e \<Longrightarrow> e \<le> int (length xs) \<Longrightarrow>
     py_slice xs s e = take (nat e - nat s) (drop (nat s) xs)"
  by (simp add: py_slice_def py_slice_index_def Let_def)

lemma py_slice_assign_in_range:
  "0 \<le> s \<Longrightarrow> s \<le> e \<Longrightarrow> e \<le> int (length xs) \<Longrightarrow>
     py_slice_assign xs s e ys = take (nat s) xs @ ys @ drop (nat e) xs"
  by (simp add: py_slice_assign_def py_slice_index_def Let_def max_absorb2)

lemma replace_loop_render:
  "ranges_chain lo (int (length text)) rs \<Longrightarrow> 0 \<le> lo \<Longrightarrow>
     replace_loop text (rev rs) (text, [], c) =
       (render text 0 (tok_items c rs), table_of text (tok_items c rs), c + length rs)"
proof (induction rs arbitrary: lo)
  case Nil
  show ?case by simp
next
  case (Cons r rs)
  obtain s e h where r: "r = (s, e, h)" by (cases r)
  let ?items = "tok_items c rs"
  let ?W = "render text 0 ?items"
  let ?T = "table_of text ?items"
  let ?tok = "mask_token h (c + length rs)"
  from Cons.prems have pos: "0 \<le> s" "s < e" "e \<le> int (length text)"
    and chain: "ranges_chain e (int (length text)) rs"
    by (simp_all add: r)
  have e0: "0 \<le> e" using pos by simp
  have ih: "replace_loop text (rev rs) (text, [], c) = (?W, ?T, c + length rs)"
    using chain e0 by (rule Cons.IH)
  have starts: "\<forall>it \<in> set ?items. nat e \<le> fst it"
  proof
    fix it assume "it \<in> set ?items"
    from tok_items_mem [OF this] obtain r' n where r': "r' \<in> set rs"
      and it: "it = (nat (fst r'), nat (fst (snd r')), mask_token (snd (snd r')) n)"
      by (elim bexE exE conjE)
    from ranges_chain_bounds [OF chain r'] have "e \<le> fst r'" by (rule conjunct1)
    then show "nat e \<le> fst it" by (simp add: it)
  qed
  have "render text 0 ?items = take (nat e - 0) (drop 0 text) @ render text (nat e) ?items"
    using le0 starts by (rule render_split)
  then have W: "?W = take (nat e) text @ render text (nat e) ?items" by simp
  have len: "length (take (nat e) text) = nat e" using pos by simp
  have eW: "e \<le> int (length ?W)"
  proof -
    have "nat e \<le> length (take (nat e) text @ render text (nat e) ?items)"
      by (simp only: length_append len)
    then have "nat e \<le> length ?W" by (simp only: W [symmetric])
    then show ?thesis by simp
  qed
  have se: "s \<le> e" using pos by simp
  have tk: "take (nat s) ?W = take (nat s) text"
  proof -
    have d: "nat s - nat e = 0" and m: "min (nat s) (nat e) = nat s"
      using pos by simp_all
    have "take (nat s) (take (nat e) text @ render text (nat e) ?items) = take (nat s) text"
      by (simp only: take_append len d take_0 append_Nil2 take_take m)
    then show ?thesis by (simp only: W [symmetric])
  qed
  have dr: "drop (nat e) ?W = render text (nat e) ?items"
  proof -
    have "drop (nat e) (take (nat e) text @ render text (nat e) ?items)
        = render text (nat e) ?items"
      by (simp only: drop_append len diff_self_eq_0 drop_0 drop_take) simp
    then show ?thesis by (simp only: W [symmetric])
  qed
  have assign: "py_slice_assign ?W s e ?tok = render text 0 ((nat s, nat e, ?tok) # ?items)"
    by (simp add: py_slice_assign_in_range [OF pos(1) se eW] tk dr)
  have slice: "py_slice text s e = take (nat e - nat s) (drop (nat s) text)"
    using pos(1) se pos(3) by (rule py_slice_in_range)
  have fresh: "?tok \<notin> fst ` set ?T"
  proof
    assume "?tok \<in> fst ` set ?T"
    then have "?tok \<in> set (map fst ?T)" by simp
    then have "?tok \<in> set (map (\<lambda>it. snd (snd it)) ?items)"
      by (simp only: table_of_keys set_rev)
    then obtain it where i: "it \<in> set ?items" and t: "?tok = snd (snd it)"
      by auto
    from tok_items_mem [OF i] obtain r' n where n: "n < c + length rs"
      and it: "it = (nat (fst r'), nat (fst (snd r')), mask_token (snd (snd r')) n)"
      by (elim bexE exE conjE)
    from t have "mask_token h (c + length rs) = mask_token (snd (snd r')) n"
      by (simp add: it)
    then have "c + length rs = n" by (rule mask_token_counter_inj)
    with n show False by simp
  qed
  have set: "dict_set ?T ?tok (py_slice text s e)
      = table_of text ((nat s, nat e, ?tok) # ?items)"
    by (simp add: dict_set_new [OF fresh] slice)
  have guard: "\<not> (s < 0 \<or> e > int (length text))" using pos by simp
  have step: "replace_loop text [(s, e, h)] (?W, ?T, c + length rs)
      = (py_slice_assign ?W s e ?tok, dict_set ?T ?tok (py_slice text s e), c + length rs + 1)"
    using guard by (simp add: Let_def)
  have "replace_loop text (rev (r # rs)) (text, [], c)
      = replace_loop text [(s, e, h)] (replace_loop text (rev rs) (text, [], c))"
    by (simp only: r rev.simps replace_loop_append)
  also have "\<dots> = (render text 0 ((nat s, nat e, ?tok) # ?items),
      table_of text ((nat s, nat e, ?tok) # ?items), c + length rs + 1)"
    by (simp only: ih step assign set)
  finally show ?case by (simp add: r)
qed

subsection \<open>The type tags contain no bracket\<close>

lemma upper_char_plain:
  "c \<noteq> CHR ''['' \<Longrightarrow> c \<noteq> CHR '']'' \<Longrightarrow>
     upper_char c \<noteq> CHR ''['' \<and> upper_char c \<noteq> CHR '']''"
  by (simp add: upper_char_def)

lemma hint_ok_append: "hint_ok (a @ b) = (hint_ok a \<and> hint_ok b)"
  by (auto simp: hint_ok_def)

lemma py_upper_plain:
  assumes "hint_ok s"
  shows "hint_ok (py_upper s)"
proof -
  have "x \<noteq> CHR ''['' \<and> x \<noteq> CHR '']''" if "x \<in> set (py_upper s)" for x
  proof -
    from that obtain c where c: "c \<in> set s" and x: "x = upper_char c"
      unfolding py_upper_def by auto
    from assms c have "c \<noteq> CHR ''[''" "c \<noteq> CHR '']''"
      unfolding hint_ok_def by auto
    then show ?thesis unfolding x by (rule upper_char_plain)
  qed
  then show ?thesis unfolding hint_ok_def by blast
qed

lemma star_to_S_plain: "hint_ok s \<Longrightarrow> hint_ok (py_replace s ''*'' ''S'')"
  by (simp only: py_replace_map_char) (auto simp: hint_ok_def)

lemma masked_macros_plain: "m \<in> set MASKED_MACROS \<Longrightarrow> hint_ok m"
proof -
  have "\<forall>m \<in> set MASKED_MACROS. hint_ok m"
    by (simp add: MASKED_MACROS_def hint_ok_def)
  then show "m \<in> set MASKED_MACROS \<Longrightarrow> hint_ok m" by (rule bspec)
qed

lemma opaque_names_plain: "name \<in> OPAQUE_ENVS \<Longrightarrow> hint_ok name"
proof -
  have "hint_ok ''equation''" "hint_ok ''align''" "hint_ok ''gather''" "hint_ok ''eqnarray''"
    "hint_ok ''tabular''" "hint_ok ''tikzpicture''" "hint_ok ''axuodraw''"
    "hint_ok ''algorithmic''"
    by (simp_all add: hint_ok_def)
  then show "name \<in> OPAQUE_ENVS \<Longrightarrow> hint_ok name"
    unfolding OPAQUE_ENVS_def by blast
qed

lemma code_names_plain: "name \<in> CODE_ENVS \<Longrightarrow> hint_ok name"
proof -
  have "hint_ok ''lstlisting''" "hint_ok ''verbatim''" "hint_ok ''minted''"
    by (simp_all add: hint_ok_def)
  then show "name \<in> CODE_ENVS \<Longrightarrow> hint_ok name"
    unfolding CODE_ENVS_def by blast
qed

lemma opaque_env_plain:
  assumes "env_is_opaque name"
  shows "hint_ok name"
proof -
  from assms have "name \<in> OPAQUE_ENVS \<or> py_replace name ''*'' [] \<in> OPAQUE_ENVS"
    unfolding env_is_opaque_def by (simp split: if_splits)
  then show ?thesis
  proof
    assume "name \<in> OPAQUE_ENVS"
    then show ?thesis by (rule opaque_names_plain)
  next
    assume "py_replace name ''*'' [] \<in> OPAQUE_ENVS"
    then have "hint_ok (py_replace name ''*'' [])" by (rule opaque_names_plain)
    then have "hint_ok (filter (\<lambda>x. x \<noteq> CHR ''*'') name)"
      by (simp only: py_replace_delete_char)
    then show ?thesis by (auto simp: hint_ok_def)
  qed
qed

lemma traverse_hints_plain:
  "\<forall>r \<in> set (traverse_nodes ns). hint_ok (snd (snd r))"
proof (induction ns rule: traverse_nodes.induct)
  case 1
  show ?case by simp
next
  case (2 pos len nodelist rest)
  have "hint_ok ''MATH''" by (simp add: hint_ok_def)
  with 2 show ?case by simp
next
  case (3 macroname pos len rest)
  show ?case
  proof (cases "macroname \<in> set MASKED_MACROS")
    case True
    then have "hint_ok macroname" by (rule masked_macros_plain)
    then have "hint_ok (py_upper macroname)" by (rule py_upper_plain)
    moreover have "hint_ok ''CMD_''" by (simp add: hint_ok_def)
    ultimately have "hint_ok (''CMD_'' @ py_upper macroname)"
      by (simp only: hint_ok_append)
    with 3 True show ?thesis by simp
  next
    case False
    with 3 show ?thesis by simp
  qed
next
  case (4 env_name pos len nodelist rest)
  show ?case
  proof (cases "env_is_opaque env_name")
    case True
    then have "hint_ok env_name" by (rule opaque_env_plain)
    then have "hint_ok (py_upper env_name)" by (rule py_upper_plain)
    then have "hint_ok (py_replace (py_upper env_name) ''*'' ''S'')" by (rule star_to_S_plain)
    moreover have "hint_ok ''ENV_''" by (simp add: hint_ok_def)
    ultimately have "hint_ok (''ENV_'' @ py_replace (py_upper env_name) ''*'' ''S'')"
      by (simp only: hint_ok_append)
    with 4 True show ?thesis by simp
  next
    case False
    show ?thesis
    proof (cases "env_name \<in> CODE_ENVS")
      case True
      then have "hint_ok env_name" by (rule code_names_plain)
      then have "hint_ok (py_upper env_name)" by (rule py_upper_plain)
      moreover have "hint_ok ''CODE_''" by (simp add: hint_ok_def)
      ultimately have "hint_ok (''CODE_'' @ py_upper env_name)"
        by (simp only: hint_ok_append)
      with 4 False True show ?thesis by simp
    next
      case nc: False
      with 4 False show ?thesis by (simp add: ball_Un)
    qed
  qed
next
  case (5 pos len nodelist rest)
  then show ?case by (simp add: ball_Un)
next
  case (6 pos len rest)
  then show ?case by simp
next
  case (7 pos len rest)
  then show ?case by simp
next
  case (8 pos len rest)
  then show ?case by simp
qed

subsection \<open>The round trip\<close>

text \<open>
  C1, as amended. When the parser returns a well-nested node tree for the text and
  the text does not contain the string \<open>[MASK_\<close>, unmasking the masked output with
  the returned table gives back the text exactly:
  \<open>unmask_content(*mask_content(text)) == text\<close>.
\<close>

theorem mask_unmask_roundtrip:
  assumes wn: "well_nested 0 (int (length text)) nodes"
    and nomask: "\<not> py_in ''[MASK_'' text"
  shows "unmask_content (fst (mask_content text (Some nodes)))
           (snd (mask_content text (Some nodes))) = text"
proof -
  let ?rs = "traverse_nodes nodes"
  let ?items = "tok_items 0 ?rs"
  have chain: "ranges_chain 0 (int (length text)) ?rs"
    using wn by (rule traverse_nodes_chain)
  have sort: "sort_ranges ?rs = rev ?rs"
    using chain by (rule sort_ranges_chain)
  have loop: "replace_loop text (rev ?rs) (text, [], 0) =
      (render text 0 ?items, table_of text ?items, 0 + length ?rs)"
    using chain order_refl by (rule replace_loop_render)
  have mc: "mask_content text (Some nodes) = (render text 0 ?items, table_of text ?items)"
    by (simp only: mask_content_def option.case sort Let_def loop prod.case)
  have ns: "\<not> sublist ''[MASK_'' text"
    unfolding py_in_iff_sublist [symmetric] by (rule nomask)
  have "unmask_content (render text 0 ?items) (table_of text ?items) = text"
    using chain traverse_hints_plain by (rule unmask_render [OF ns])
  then show ?thesis by (simp only: mc fst_conv snd_conv)
qed

theorem mask_unmask_roundtrip_witness:
  "well_nested 0 (int (length einstein_text)) einstein_nodes \<and>
   \<not> py_in ''[MASK_'' einstein_text \<and>
   unmask_content (fst (mask_content einstein_text (Some einstein_nodes)))
     (snd (mask_content einstein_text (Some einstein_nodes))) = einstein_text"
proof -
  have w: "well_nested 0 (int (length einstein_text)) einstein_nodes"
    by (simp add: einstein_text_def einstein_nodes_def)
  have n: "\<not> py_in ''[MASK_'' einstein_text"
    by (simp add: einstein_text_def backslash_def)
  from w n mask_unmask_roundtrip [OF w n] show ?thesis by (intro conjI)
qed

text \<open>
  C1 as stated, for every document text, fails: on the text \<open>[MASK_MATH_0000]$x$\<close>
  the math node \<open>$x$\<close> gets the token \<open>[MASK_MATH_0000]\<close>, the masked text is
  \<open>[MASK_MATH_0000][MASK_MATH_0000]\<close>, and \<open>unmask_content\<close> replaces both
  occurrences: the result is \<open>$x$$x$\<close>.
\<close>

theorem roundtrip_fails_on_token_text:
  "unmask_content (fst (mask_content collision_text (Some collision_nodes)))
     (snd (mask_content collision_text (Some collision_nodes))) \<noteq> collision_text"
  by (simp add: collision_text_def collision_nodes_def masker_eval replicate_zeros)

text \<open>
  The node tree of this text is well nested: what fails is the assumption that the
  text contains no token text.
\<close>

lemma collision_result:
  "well_nested 0 (int (length collision_text)) collision_nodes \<and>
   mask_content collision_text (Some collision_nodes) =
     (''[MASK_MATH_0000][MASK_MATH_0000]'', [(''[MASK_MATH_0000]'', ''$x$'')]) \<and>
   unmask_content ''[MASK_MATH_0000][MASK_MATH_0000]'' [(''[MASK_MATH_0000]'', ''$x$'')]
     = ''$x$$x$''"
  by (simp add: collision_text_def collision_nodes_def masker_eval replicate_zeros)

text \<open>
  The regular-expression fallback, which runs when the parser raises, has no round
  trip either, also on a text without token text: on \<open>$a $$b$$ c$\<close> the first
  substitution masks \<open>$$b$$\<close>, the second one masks the whole remaining text
  together with the first token, and \<open>unmask_content\<close>, which goes through the table
  in the order of insertion, looks for the first token before the second token has
  brought it back.
\<close>

lemma fallback_roundtrip_fails:
  "mask_content ''$a $$b$$ c$'' None =
     (''[MASK_R_MATH_0001]'',
      [(''[MASK_R_MATH_0000]'', ''$$b$$''), (''[MASK_R_MATH_0001]'', ''$a [MASK_R_MATH_0000] c$'')])
   \<and> unmask_content (fst (mask_content ''$a $$b$$ c$'' None))
         (snd (mask_content ''$a $$b$$ c$'' None)) = ''$a [MASK_R_MATH_0000] c$''"
  by (simp add: masker_eval replicate_zeros mask_content_regex_fallback_def dollar_def)

end
